theory Spec2Isabelle
  imports Complex_Main "HOL-Library.Word"
begin

unbundle bit_operations_syntax

section \<open>Common data\<close>

type_synonym byte = "8 word"

text \<open>
  Every \<open>throw\<close> of the source, and every exception the JavaScript runtime raises on
  the paths the source takes, is a value of this type.
  \<^item> \<open>InvalidCompressedData\<close>: \<open>new Error('Invalid compressed data')\<close>;
  \<^item> \<open>OutputBufferTooSmall\<close>: \<open>new Error('Output buffer is not large enough')\<close>;
  \<^item> \<open>TypeError\<close>: reading a property of \<open>null\<close>;
  \<^item> \<open>RangeError\<close>: a typed array or DataView constructed or read out of bounds.
\<close>

datatype error = InvalidCompressedData | OutputBufferTooSmall | TypeError | RangeError

section \<open>The LZF decompressor (\<open>decompressLZF\<close>)\<close>

text \<open>
  Reading element \<open>i\<close> of a \<open>Uint8Array\<close> gives the byte as a number, or
  \<open>undefined\<close> (here \<open>None\<close>) when \<open>i\<close> is out of range.
\<close>

definition ta_get :: "byte list \<Rightarrow> nat \<Rightarrow> nat option" where
  "ta_get xs i = (if i < length xs then Some (unat (xs ! i)) else None)"

text \<open>\<open>v < n\<close> on a possibly undefined number: \<open>undefined < n\<close> is false.\<close>

definition js_lt :: "nat option \<Rightarrow> nat \<Rightarrow> bool" where
  "js_lt v n = (case v of None \<Rightarrow> False | Some c \<Rightarrow> c < n)"

text \<open>The operand of a bitwise operator is converted with ToInt32; \<open>undefined\<close> becomes 0.\<close>

definition to_int32 :: "nat option \<Rightarrow> nat" where
  "to_int32 v = (case v of None \<Rightarrow> 0 | Some c \<Rightarrow> c)"

record lzf_state =
  outData :: "byte list"
  inPtr :: nat
  outPtr :: nat

text \<open>
  \<open>do { outData[outPtr++] = inData[inPtr++]; } while (--ctrl);\<close>
  The first argument is the value of \<open>ctrl\<close> on entry, which is at least 1 on every
  call (it is a control byte plus one), so the body runs \<open>ctrl\<close> times.
\<close>

fun copy_literal :: "nat \<Rightarrow> byte list \<Rightarrow> lzf_state \<Rightarrow> lzf_state" where
  "copy_literal 0 inData st = st"
| "copy_literal (Suc n) inData st =
     copy_literal n inData
       (st\<lparr>outData := (outData st)[outPtr st := inData ! inPtr st],
           inPtr := inPtr st + 1,
           outPtr := outPtr st + 1\<rparr>)"

text \<open>
  \<open>do { outData[outPtr++] = outData[ref++]; } while (--len + 2);\<close>
  The first argument is the number of times the body runs, \<open>len + 2\<close>; the second is
  \<open>ref\<close>. Each byte is read from the buffer as the previous iterations left it.
\<close>

fun copy_reference :: "nat \<Rightarrow> nat \<Rightarrow> lzf_state \<Rightarrow> lzf_state" where
  "copy_reference 0 ref st = st"
| "copy_reference (Suc n) ref st =
     copy_reference n (ref + 1)
       (st\<lparr>outData := (outData st)[outPtr st := outData st ! ref],
           outPtr := outPtr st + 1\<rparr>)"

text \<open>
  One pass through the body of the outer \<open>do ... while (inPtr < inLength)\<close> loop.
  The reads \<open>inData[inPtr++]\<close> after the control byte are guarded by the checks
  \<open>inPtr >= inLength\<close> before them, so they are in range where they are reached.
\<close>

definition lzf_step :: "byte list \<Rightarrow> nat \<Rightarrow> lzf_state \<Rightarrow> error + lzf_state" where
  "lzf_step inData outLength st =
    (let inLength = length inData;
         ctrl = ta_get inData (inPtr st);
         inPtr1 = inPtr st + 1
     in if js_lt ctrl (push_bit 5 1) then
          let ctrl1 = to_int32 ctrl + 1
          in if outPtr st + ctrl1 > outLength then Inl OutputBufferTooSmall
             else if inPtr1 + ctrl1 > inLength then Inl InvalidCompressedData
             else Inr (copy_literal ctrl1 inData (st\<lparr>inPtr := inPtr1\<rparr>))
        else
          let len = drop_bit 5 (to_int32 ctrl);
              ref = int (outPtr st) - int (push_bit 8 (to_int32 ctrl AND 0x1f)) - 1
          in if inPtr1 \<ge> inLength then Inl InvalidCompressedData
             else
               let len1 = (if len = 7 then len + unat (inData ! inPtr1) else len);
                   inPtr2 = (if len = 7 then inPtr1 + 1 else inPtr1)
               in if len = 7 \<and> inPtr2 \<ge> inLength then Inl InvalidCompressedData
                  else
                    let ref1 = ref - int (unat (inData ! inPtr2));
                        inPtr3 = inPtr2 + 1
                    in if outPtr st + len1 + 2 > outLength then Inl OutputBufferTooSmall
                       else if ref1 < 0 then Inl InvalidCompressedData
                       else if ref1 \<ge> int (outPtr st) then Inl InvalidCompressedData
                       else Inr (copy_reference (len1 + 2) (nat ref1) (st\<lparr>inPtr := inPtr3\<rparr>)))"

lemma copy_literal_inPtr: "inPtr (copy_literal n inData st) = inPtr st + n"
  by (induction n inData st rule: copy_literal.induct) simp_all

lemma copy_reference_inPtr: "inPtr (copy_reference n r st) = inPtr st"
  by (induction n r st rule: copy_reference.induct) simp_all

lemma lzf_step_advances:
  assumes "lzf_step inData outLength st = Inr st'"
  shows "inPtr st < inPtr st'"
  using assms
  by (auto simp: lzf_step_def Let_def copy_literal_inPtr copy_reference_inPtr
           split: if_splits)

text \<open>
  The outer loop: the body runs once before the condition \<open>inPtr < inLength\<close> is
  first looked at. It ends because every pass that does not throw moves \<open>inPtr\<close> on.
\<close>

function lzf_loop :: "byte list \<Rightarrow> nat \<Rightarrow> lzf_state \<Rightarrow> error + byte list" where
  "lzf_loop inData outLength st =
     (case lzf_step inData outLength st of
        Inl e \<Rightarrow> Inl e
      | Inr st' \<Rightarrow>
          if inPtr st' < length inData then lzf_loop inData outLength st'
          else Inr (outData st'))"
  by pat_completeness auto
termination
  by (relation "measure (\<lambda>(inData, outLength, st). length inData - inPtr st)")
     (auto dest: lzf_step_advances)

definition decompressLZF :: "byte list \<Rightarrow> nat \<Rightarrow> error + byte list" where
  "decompressLZF inData outLength =
     lzf_loop inData outLength \<lparr>outData = replicate outLength 0, inPtr = 0, outPtr = 0\<rparr>"

subsection \<open>The LZF stream format\<close>

text \<open>
  Modelled from the spec: the repository holds the decompressor only, no compressor. What
  a matching compressor writes is taken from the format the spec gives for the
  decompressor's input: a stream is a sequence of blocks, each a literal run of 1 to 32
  bytes (control byte \<open>n - 1 < 32\<close>, then the \<open>n\<close> bytes) or a back-reference of
  length 3 to 264 at distance 1 to 8192 into the bytes produced so far (control byte
  \<open>((len - 2) << 5) | ((dist - 1) >> 8)\<close> with the length field 7 escaping to one more
  byte \<open>len - 2 - 7\<close>, then the low byte of \<open>dist - 1\<close>). \<open>lzf_expand\<close> is what a stream
  of blocks stands for, \<open>emit_block\<close> how a compressor writes a block.
\<close>

datatype lzf_block = Literal "byte list" | Backref nat nat

fun emit_block :: "lzf_block \<Rightarrow> byte list" where
  "emit_block (Literal bs) = of_nat (length bs - 1) # bs"
| "emit_block (Backref n d) =
     (let l = n - 2; off = d - 1
      in if l < 7 then [of_nat (l * 32 + off div 256), of_nat (off mod 256)]
         else [of_nat (7 * 32 + off div 256), of_nat (l - 7), of_nat (off mod 256)])"

fun block_ok :: "nat \<Rightarrow> lzf_block \<Rightarrow> bool" where
  "block_ok k (Literal bs) = (1 \<le> length bs \<and> length bs \<le> 32)"
| "block_ok k (Backref n d) = (3 \<le> n \<and> n \<le> 264 \<and> 1 \<le> d \<and> d \<le> 8192 \<and> d \<le> k)"

fun replay :: "nat \<Rightarrow> nat \<Rightarrow> byte list \<Rightarrow> byte list" where
  "replay 0 d out = out"
| "replay (Suc n) d out = replay n d (out @ [out ! (length out - d)])"

fun expand_block :: "byte list \<Rightarrow> lzf_block \<Rightarrow> byte list" where
  "expand_block out (Literal bs) = out @ bs"
| "expand_block out (Backref n d) = replay n d out"

fun lzf_expand :: "lzf_block list \<Rightarrow> byte list \<Rightarrow> byte list option" where
  "lzf_expand [] out = Some out"
| "lzf_expand (b # bs) out =
     (if block_ok (length out) b then lzf_expand bs (expand_block out b) else None)"

subsection \<open>The copy loops\<close>

lemma copy_literal_length: "length (outData (copy_literal n inData st)) = length (outData st)"
  by (induction n inData st rule: copy_literal.induct) simp_all

lemma copy_literal_outPtr: "outPtr (copy_literal n inData st) = outPtr st + n"
  by (induction n inData st rule: copy_literal.induct) simp_all

lemma copy_literal_before:
  "i < outPtr st \<Longrightarrow> outData (copy_literal n inData st) ! i = outData st ! i"
  by (induction n inData st rule: copy_literal.induct) simp_all

lemma copy_literal_after:
  "outPtr st + n \<le> i \<Longrightarrow> outData (copy_literal n inData st) ! i = outData st ! i"
  by (induction n inData st rule: copy_literal.induct) simp_all

lemma copy_literal_copied:
  "k < n \<Longrightarrow> outPtr st + n \<le> length (outData st) \<Longrightarrow>
   outData (copy_literal n inData st) ! (outPtr st + k) = inData ! (inPtr st + k)"
proof (induction n inData st arbitrary: k rule: copy_literal.induct)
  case (1 inData st)
  then show ?case by simp
next
  case (2 n inData st)
  show ?case
  proof (cases k)
    case 0
    then show ?thesis using 2(3) by (simp add: copy_literal_before)
  next
    case (Suc j)
    then show ?thesis using 2(1)[of j] 2(2,3) by simp
  qed
qed

lemma copy_reference_length: "length (outData (copy_reference n r st)) = length (outData st)"
  by (induction n r st rule: copy_reference.induct) simp_all

lemma copy_reference_outPtr: "outPtr (copy_reference n r st) = outPtr st + n"
  by (induction n r st rule: copy_reference.induct) simp_all

lemma copy_reference_before:
  "i < outPtr st \<Longrightarrow> outData (copy_reference n r st) ! i = outData st ! i"
  by (induction n r st rule: copy_reference.induct) simp_all

lemma copy_reference_after:
  "outPtr st + n \<le> i \<Longrightarrow> outData (copy_reference n r st) ! i = outData st ! i"
  by (induction n r st rule: copy_reference.induct) simp_all

lemma copy_reference_replay:
  "r < outPtr st \<Longrightarrow> outPtr st + n \<le> length (outData st) \<Longrightarrow>
   take (outPtr st + n) (outData (copy_reference n r st))
     = replay n (outPtr st - r) (take (outPtr st) (outData st))"
proof (induction n r st rule: copy_reference.induct)
  case (1 r st)
  then show ?case by simp
next
  case (2 n r st)
  let ?st1 = "st\<lparr>outData := (outData st)[outPtr st := outData st ! r], outPtr := outPtr st + 1\<rparr>"
  have a: "take (outPtr ?st1) (outData ?st1) = take (outPtr st) (outData st) @ [outData st ! r]"
    using 2(2,3) by (simp add: take_Suc_conv_app_nth)
  have b: "outData st ! r = take (outPtr st) (outData st) ! (length (take (outPtr st) (outData st)) - (outPtr st - r))"
    using 2(2,3) by simp
  have "take (outPtr ?st1 + n) (outData (copy_reference n (r + 1) ?st1))
      = replay n (outPtr ?st1 - (r + 1)) (take (outPtr ?st1) (outData ?st1))"
    using 2(2,3) by (intro 2(1)) simp_all
  then show ?case using a b by simp
qed

declare copy_literal.simps [simp del] copy_reference.simps [simp del]

lemma unat_byte_of_nat: "n < 256 \<Longrightarrow> unat (of_nat n :: byte) = n"
  by (simp add: unat_of_nat)

lemma and_0x1f: "(c::nat) AND 0x1f = c mod 32"
proof -
  have "c AND 0x1f = take_bit 5 c"
    by (simp add: take_bit_eq_mask mask_eq_exp_minus_1)
  then show ?thesis by (simp add: take_bit_eq_mod)
qed

lemma lzf_step_literal_eq:
  assumes "ta_get inData (inPtr st) = Some c" and "c < 32"
  shows "lzf_step inData outLength st =
    (if outPtr st + (c + 1) > outLength then Inl OutputBufferTooSmall
     else if inPtr st + 1 + (c + 1) > length inData then Inl InvalidCompressedData
     else Inr (copy_literal (c + 1) inData (st\<lparr>inPtr := inPtr st + 1\<rparr>)))"
  using assms by (simp add: lzf_step_def Let_def js_lt_def to_int32_def)

lemma lzf_step_reference_eq:
  assumes "ta_get inData (inPtr st) = Some c" and "32 \<le> c" and "c div 32 \<noteq> 7"
  shows "lzf_step inData outLength st =
    (if inPtr st + 1 \<ge> length inData then Inl InvalidCompressedData
     else if outPtr st + c div 32 + 2 > outLength then Inl OutputBufferTooSmall
     else if int (outPtr st) - int (c mod 32 * 256) - 1 - int (unat (inData ! (inPtr st + 1))) < 0
       then Inl InvalidCompressedData
     else Inr (copy_reference (c div 32 + 2)
            (nat (int (outPtr st) - int (c mod 32 * 256) - 1 - int (unat (inData ! (inPtr st + 1)))))
            (st\<lparr>inPtr := inPtr st + 2\<rparr>)))"
proof -
  have "\<not> int (outPtr st) \<le> int (outPtr st) - int (c mod 32 * 256) - 1
           - int (unat (inData ! (inPtr st + 1)))"
    by linarith
  then show ?thesis
    using assms
    by (simp add: lzf_step_def Let_def js_lt_def to_int32_def and_0x1f drop_bit_eq_div
          push_bit_eq_mult)
qed

lemma lzf_step_reference_ext_eq:
  assumes "ta_get inData (inPtr st) = Some c" and "32 \<le> c" and "c div 32 = 7"
  shows "lzf_step inData outLength st =
    (if inPtr st + 2 \<ge> length inData then Inl InvalidCompressedData
     else if outPtr st + (7 + unat (inData ! (inPtr st + 1))) + 2 > outLength
       then Inl OutputBufferTooSmall
     else if int (outPtr st) - int (c mod 32 * 256) - 1 - int (unat (inData ! (inPtr st + 2))) < 0
       then Inl InvalidCompressedData
     else Inr (copy_reference (7 + unat (inData ! (inPtr st + 1)) + 2)
            (nat (int (outPtr st) - int (c mod 32 * 256) - 1 - int (unat (inData ! (inPtr st + 2)))))
            (st\<lparr>inPtr := inPtr st + 3\<rparr>)))"
proof -
  have "\<not> int (outPtr st) \<le> int (outPtr st) - int (c mod 32 * 256) - 1
           - int (unat (inData ! (inPtr st + 2)))"
    by linarith
  then show ?thesis
    using assms
    by (auto simp add: lzf_step_def Let_def js_lt_def to_int32_def and_0x1f drop_bit_eq_div
          push_bit_eq_mult numeral_3_eq_3)
qed

subsection \<open>One block per pass of the outer loop\<close>

lemma lzf_step_literal_block:
  assumes "inData = pre @ emit_block (Literal bs) @ rest"
    and "inPtr st = length pre"
    and "1 \<le> length bs" and "length bs \<le> 32"
    and "outPtr st + length bs \<le> outLength"
    and "length (outData st) = outLength"
  shows "\<exists>st'. lzf_step inData outLength st = Inr st'
           \<and> inPtr st' = length pre + length (emit_block (Literal bs))
           \<and> outPtr st' = outPtr st + length bs
           \<and> length (outData st') = outLength
           \<and> take (outPtr st') (outData st') = take (outPtr st) (outData st) @ bs"
proof -
  let ?n = "length bs"
  let ?st1 = "st\<lparr>inPtr := inPtr st + 1\<rparr>"
  let ?st' = "copy_literal ?n inData ?st1"
  define c where "c = ?n - 1"
  have c32: "c < 32" "c + 1 = ?n" using assms(3,4) by (simp_all add: c_def)
  have em: "emit_block (Literal bs) = of_nat c # bs" by (simp add: c_def)
  have c: "ta_get inData (inPtr st) = Some c"
    using assms(1,2) c32 unfolding em by (simp add: ta_get_def unat_byte_of_nat)
  have ln: "length inData \<ge> length pre + 1 + ?n" using assms(1) unfolding em by simp
  have step: "lzf_step inData outLength st = Inr ?st'"
    using assms(2,5) c32(2) ln unfolding lzf_step_literal_eq[OF c c32(1)] by simp
  have len: "length (outData ?st') = outLength"
    using assms(6) by (simp add: copy_literal_length)
  have tk: "take (outPtr st + ?n) (outData ?st') = take (outPtr st) (outData st) @ bs"
  proof (rule nth_equalityI)
    show "length (take (outPtr st + ?n) (outData ?st')) = length (take (outPtr st) (outData st) @ bs)"
      using assms(5,6) len by simp
  next
    fix i assume "i < length (take (outPtr st + ?n) (outData ?st'))"
    then have i: "i < outPtr st + ?n" by simp
    show "take (outPtr st + ?n) (outData ?st') ! i = (take (outPtr st) (outData st) @ bs) ! i"
    proof (cases "i < outPtr st")
      case True
      then show ?thesis using i assms(5,6) by (simp add: copy_literal_before nth_append)
    next
      case False
      define k where "k = i - outPtr st"
      have k: "k < ?n" "i = outPtr ?st1 + k" using False i by (simp_all add: k_def)
      have "outData ?st' ! (outPtr ?st1 + k) = inData ! (inPtr ?st1 + k)"
        using k(1) assms(5,6) by (intro copy_literal_copied) simp_all
      also have "\<dots> = bs ! k" using assms(1,2) k(1) unfolding em by (simp add: nth_append)
      finally show ?thesis using False i k assms(5,6) by (simp add: nth_append)
    qed
  qed
  show ?thesis using step len tk assms(2) by (simp add: copy_literal_inPtr copy_literal_outPtr)
qed

lemma ctrl_div: "hi < 32 \<Longrightarrow> (l * 32 + hi) div 32 = (l::nat)"
  by simp

lemma ctrl_mod: "hi < 32 \<Longrightarrow> (l * 32 + hi) mod 32 = (hi::nat)"
  by simp

lemma lzf_step_backref_block:
  assumes "inData = pre @ emit_block (Backref n d) @ rest"
    and "inPtr st = length pre"
    and "3 \<le> n" and "n \<le> 264" and "1 \<le> d" and "d \<le> 8192" and "d \<le> outPtr st"
    and "outPtr st + n \<le> outLength"
    and "length (outData st) = outLength"
  shows "\<exists>st'. lzf_step inData outLength st = Inr st'
           \<and> inPtr st' = length pre + length (emit_block (Backref n d))
           \<and> outPtr st' = outPtr st + n
           \<and> length (outData st') = outLength
           \<and> take (outPtr st') (outData st') = replay n d (take (outPtr st) (outData st))"
proof -
  define l where "l = n - 2"
  define off where "off = d - 1"
  define hi where "hi = off div 256"
  define lo where "lo = off mod 256"
  have hi: "hi < 32" and lo: "lo < 256" and off: "off = hi * 256 + lo"
    using assms(6) by (simp_all add: hi_def lo_def off_def)
  have l: "1 \<le> l" "l \<le> 262" "l + 2 = n" using assms(3,4) by (simp_all add: l_def)
  have d: "d = off + 1" using assms(5) by (simp add: off_def)
  let ?r = "outPtr st - d"
  have rlt: "?r < outPtr st" using assms(5,7) by simp
  have rf: "int (outPtr st) - int (hi * 256) - 1 - int lo = int ?r"
    using assms(7) d off by simp
  have main: "\<exists>k. lzf_step inData outLength st = Inr (copy_reference n ?r (st\<lparr>inPtr := inPtr st + k\<rparr>))
       \<and> k = length (emit_block (Backref n d))"
  proof (cases "l < 7")
    case True
    define c where "c = l * 32 + hi"
    have c256: "c < 256" "32 \<le> c" "c div 32 = l" "c mod 32 = hi" "c div 32 \<noteq> 7"
      using True hi l(1) by (simp_all add: c_def)
    have em: "emit_block (Backref n d) = [of_nat c, of_nat lo]"
      using True
      by (simp add: l_def off_def hi_def lo_def c_def Let_def del: of_nat_add of_nat_mult)
    have c: "ta_get inData (inPtr st) = Some c"
      using assms(1,2) em c256(1) by (simp add: ta_get_def unat_byte_of_nat)
    have b1: "unat (inData ! (inPtr st + 1)) = lo"
      using assms(1,2) em lo by (simp add: nth_append unat_byte_of_nat)
    have ln: "length inData > inPtr st + 1" using assms(1,2) em by simp
    have lem: "length (emit_block (Backref n d)) = 2" unfolding em by simp
    show ?thesis
      unfolding lzf_step_reference_eq[OF c c256(2) c256(5)] b1 c256(3,4) rf lem
      using ln assms(8) l(3) by auto
  next
    case False
    define c where "c = 7 * 32 + hi"
    define e where "e = l - 7"
    have c256: "c < 256" "e < 256" "32 \<le> c" "c div 32 = 7" "c mod 32 = hi"
    proof -
      show "c div 32 = 7" unfolding c_def by (rule ctrl_div[OF hi])
      show "c mod 32 = hi" unfolding c_def by (rule ctrl_mod[OF hi])
    qed (use l(2) hi in \<open>simp_all add: c_def e_def\<close>)
    have em: "emit_block (Backref n d) = [of_nat c, of_nat e, of_nat lo]"
      using False
      by (simp add: l_def off_def hi_def lo_def c_def e_def Let_def
               del: of_nat_add of_nat_mult of_nat_diff)
    have c: "ta_get inData (inPtr st) = Some c"
      using assms(1,2) em c256(1) by (simp add: ta_get_def unat_byte_of_nat)
    have b1: "unat (inData ! (inPtr st + 1)) = e"
      using assms(1,2) em c256 by (simp add: nth_append unat_byte_of_nat)
    have b2: "unat (inData ! (inPtr st + 2)) = lo"
      using assms(1,2) em lo by (simp add: nth_append unat_byte_of_nat)
    have ln: "length inData > inPtr st + 2" using assms(1,2) em by simp
    have ll: "7 + e + 2 = n" using False l(3) by (simp add: e_def)
    have lem: "length (emit_block (Backref n d)) = 3" unfolding em by simp
    show ?thesis
      unfolding lzf_step_reference_ext_eq[OF c c256(3) c256(4)] b1 b2 c256(5) rf lem
      using ln assms(8) ll by auto
  qed
  then obtain k where step: "lzf_step inData outLength st = Inr (copy_reference n ?r (st\<lparr>inPtr := inPtr st + k\<rparr>))"
    and k: "k = length (emit_block (Backref n d))" by blast
  let ?st1 = "st\<lparr>inPtr := inPtr st + k\<rparr>"
  have "take (outPtr ?st1 + n) (outData (copy_reference n ?r ?st1))
        = replay n (outPtr ?st1 - ?r) (take (outPtr ?st1) (outData ?st1))"
    using rlt assms(8,9) by (intro copy_reference_replay) simp_all
  then show ?thesis using step k assms(2,7,9)
    by (simp add: copy_reference_inPtr copy_reference_outPtr copy_reference_length)
qed

lemma replay_length: "length (replay n d out) = length out + n"
  by (induction n d out rule: replay.induct) simp_all

lemma expand_block_length:
  "length out \<le> length (expand_block out b)"
  by (cases b) (simp_all add: replay_length)

lemma lzf_expand_length: "lzf_expand bs out = Some s \<Longrightarrow> length out \<le> length s"
proof (induction bs arbitrary: out)
  case Nil
  then show ?case by simp
next
  case (Cons b bs)
  then have "lzf_expand bs (expand_block out b) = Some s" by (simp split: if_splits)
  then have "length (expand_block out b) \<le> length s" by (rule Cons.IH)
  then show ?case using expand_block_length[of out b] by linarith
qed

lemma emit_block_nonempty: "emit_block b \<noteq> []"
  by (cases b) (simp_all add: Let_def)

lemma lzf_step_block:
  assumes "inData = pre @ emit_block b @ rest"
    and "inPtr st = length pre"
    and "block_ok (outPtr st) b"
    and "outPtr st + (length (expand_block (take (outPtr st) (outData st)) b) - outPtr st) \<le> outLength"
    and "length (outData st) = outLength"
    and "outPtr st \<le> outLength"
  shows "\<exists>st'. lzf_step inData outLength st = Inr st'
           \<and> inPtr st' = length pre + length (emit_block b)
           \<and> length (outData st') = outLength
           \<and> outPtr st' = length (expand_block (take (outPtr st) (outData st)) b)
           \<and> take (outPtr st') (outData st') = expand_block (take (outPtr st) (outData st)) b"
proof (cases b)
  case (Literal bs)
  have "outPtr st + length bs \<le> outLength" using assms(4,5,6) Literal by simp
  from lzf_step_literal_block[OF assms(1)[unfolded Literal] assms(2) _ _ this assms(5)]
  show ?thesis using assms(3,5,6) Literal by auto
next
  case (Backref n d)
  have "outPtr st + n \<le> outLength" using assms(4,5,6) Backref by (simp add: replay_length)
  from lzf_step_backref_block[OF assms(1)[unfolded Backref] assms(2) _ _ _ _ _ this assms(5)]
  show ?thesis using assms(3,5,6) Backref by (auto simp: replay_length)
qed

lemma lzf_loop_blocks:
  assumes "lzf_expand bs out = Some s" and "bs \<noteq> []"
    and "inData = pre @ concat (map emit_block bs)"
    and "inPtr st = length pre" and "outPtr st = length out"
    and "take (outPtr st) (outData st) = out"
    and "length (outData st) = length s"
  shows "lzf_loop inData (length s) st = Inr s"
  using assms
proof (induction bs arbitrary: out pre st)
  case Nil
  then show ?case by simp
next
  case (Cons b bs)
  let ?out' = "expand_block out b"
  have ok: "block_ok (length out) b" and ex: "lzf_expand bs ?out' = Some s"
    using Cons.prems(1) by (simp_all split: if_splits)
  have le: "length ?out' \<le> length s" using ex by (rule lzf_expand_length)
  have le0: "length out \<le> length ?out'" by (rule expand_block_length)
  have inD: "inData = pre @ emit_block b @ concat (map emit_block bs)"
    using Cons.prems(3) by simp
  obtain st' where step: "lzf_step inData (length s) st = Inr st'"
    and ip: "inPtr st' = length pre + length (emit_block b)"
    and ln: "length (outData st') = length s"
    and op: "outPtr st' = length ?out'"
    and tk: "take (outPtr st') (outData st') = ?out'"
    using lzf_step_block[OF inD Cons.prems(4), of "length s"] ok le le0 Cons.prems(5,6,7)
    by auto
  show ?case
  proof (cases "bs = []")
    case True
    then have "s = ?out'" using ex by simp
    moreover have "\<not> inPtr st' < length inData" using ip inD True by simp
    ultimately show ?thesis using step tk op ln
      by (subst lzf_loop.simps) simp
  next
    case False
    obtain b' bs' where bs: "bs = b' # bs'" using False by (cases bs) auto
    have "inPtr st' < length inData"
      using ip inD bs emit_block_nonempty[of b'] by (simp add: length_greater_0_conv)
    moreover have "lzf_loop inData (length s) st' = Inr s"
    proof (rule Cons.IH[OF ex False _ _ op tk ln])
      show "inData = (pre @ emit_block b) @ concat (map emit_block bs)" using inD by simp
      show "inPtr st' = length (pre @ emit_block b)" using ip by simp
    qed
    ultimately show ?thesis using step by (subst lzf_loop.simps) simp
  qed
qed

lemma decompressLZF_zero_length: "\<exists>e. decompressLZF inData 0 = Inl e"
  unfolding decompressLZF_def
  by (subst lzf_loop.simps) (auto simp: lzf_step_def Let_def split: if_splits)

text \<open>
  Claim C1, as amended. For every byte sequence \<open>s\<close> that a stream of at least one
  well-formed block stands for (every non-empty \<open>s\<close> has such streams), decompressing
  the bytes a compressor writes for that stream, with expected output length
  \<open>length s\<close>, returns exactly \<open>s\<close>. The stream of the empty sequence is empty, and
  there the decompressor throws: its loop reads a control byte before it looks at the
  input's length.
\<close>

theorem lzf_roundtrip:
  assumes "lzf_expand bs [] = Some s" and "bs \<noteq> []"
  shows "decompressLZF (concat (map emit_block bs)) (length s) = Inr s"
  unfolding decompressLZF_def
  by (rule lzf_loop_blocks[OF assms, where pre = "[]"]) simp_all

theorem lzf_roundtrip_witness:
  "lzf_expand [Literal [97, 98, 99], Backref 6 3, Literal [100], Backref 12 2] []
     = Some [97, 98, 99, 97, 98, 99, 97, 98, 99, 100, 99, 100, 99, 100, 99, 100, 99, 100,
             99, 100, 99, 100]
   \<and> [Literal [97, 98, 99], Backref 6 3, Literal [100], Backref 12 2] \<noteq> []
   \<and> decompressLZF
         (concat (map emit_block [Literal [97, 98, 99], Backref 6 3, Literal [100], Backref 12 2]))
         (length [97, 98, 99, 97, 98, 99, 97, 98, 99, 100, 99, 100, 99, 100, 99, 100, 99, 100,
             99, 100, 99, 100 :: byte])
       = Inr [97, 98, 99, 97, 98, 99, 97, 98, 99, 100, 99, 100, 99, 100, 99, 100, 99, 100,
             99, 100, 99, 100]"
proof -
  have h1: "lzf_expand [Literal [97, 98, 99], Backref 6 3, Literal [100], Backref 12 2] []
     = Some [97, 98, 99, 97, 98, 99, 97, 98, 99, 100, 99, 100, 99, 100, 99, 100, 99, 100,
             99, 100, 99, 100]"
    by code_simp
  have h2: "[Literal [97, 98, 99], Backref 6 3, Literal [100], Backref 12 2] \<noteq> []"
    by simp
  from lzf_roundtrip[OF h1 h2] h1 h2 show ?thesis by blast
qed

text \<open>
  Claim C1 as stated fails for the sequence of length 0: no block stands before the end of
  its stream, the stream is empty, and \<open>decompressLZF\<close> throws
  \<open>Invalid compressed data\<close> on it.
\<close>

theorem lzf_roundtrip_empty_counterexample:
  "lzf_expand [] [] = Some []
   \<and> decompressLZF (concat (map emit_block [])) (length ([] :: byte list))
       = Inl InvalidCompressedData"
  by code_simp

subsection \<open>Back-references\<close>

text \<open>
  The quantities of a back-reference, in the words of the format: the number of input
  bytes the reference takes (control byte, the extra length byte when the length field is
  7, distance byte), \<open>len\<close>, and the position the copy starts from.
\<close>

definition reference_size :: "nat \<Rightarrow> nat" where
  "reference_size c = (if drop_bit 5 c = 7 then 3 else 2)"

definition reference_length :: "byte list \<Rightarrow> nat \<Rightarrow> nat \<Rightarrow> nat" where
  "reference_length inData p c =
     (if drop_bit 5 c = 7 then drop_bit 5 c + unat (inData ! (p + 1)) else drop_bit 5 c)"

definition reference_start :: "byte list \<Rightarrow> nat \<Rightarrow> nat \<Rightarrow> nat \<Rightarrow> int" where
  "reference_start inData p c outputPos =
     int outputPos - int (push_bit 8 (c AND 0x1F)) - 1
       - int (unat (inData ! (p + reference_size c - 1)))"

lemma lzf_step_reference_cases:
  assumes "ta_get inData (inPtr st) = Some c" and "32 \<le> c"
  shows "lzf_step inData outLength st =
    (if inPtr st + reference_size c > length inData then Inl InvalidCompressedData
     else if outPtr st + reference_length inData (inPtr st) c + 2 > outLength
       then Inl OutputBufferTooSmall
     else if reference_start inData (inPtr st) c (outPtr st) < 0 then Inl InvalidCompressedData
     else Inr (copy_reference (reference_length inData (inPtr st) c + 2)
            (nat (reference_start inData (inPtr st) c (outPtr st)))
            (st\<lparr>inPtr := inPtr st + reference_size c\<rparr>)))"
proof (cases "c div 32 = 7")
  case True
  show ?thesis
    unfolding lzf_step_reference_ext_eq[OF assms True]
    using True
    by (simp add: reference_size_def reference_length_def reference_start_def
          drop_bit_eq_div and_0x1f push_bit_eq_mult)
next
  case False
  show ?thesis
    unfolding lzf_step_reference_eq[OF assms False]
    using False
    by (simp add: reference_size_def reference_length_def reference_start_def
          drop_bit_eq_div and_0x1f push_bit_eq_mult)
qed

lemma copy_reference_self:
  "k < n \<Longrightarrow> r < outPtr st \<Longrightarrow> outPtr st + n \<le> length (outData st) \<Longrightarrow>
   outData (copy_reference n r st) ! (outPtr st + k) = outData (copy_reference n r st) ! (r + k)"
proof (induction n r st arbitrary: k rule: copy_reference.induct)
  case (1 r st)
  then show ?case by simp
next
  case (2 n r st)
  let ?st1 = "st\<lparr>outData := (outData st)[outPtr st := outData st ! r], outPtr := outPtr st + 1\<rparr>"
  show ?case
  proof (cases k)
    case 0
    have "outData (copy_reference n (r + 1) ?st1) ! outPtr st = outData ?st1 ! outPtr st"
      by (rule copy_reference_before) simp
    moreover have "outData (copy_reference n (r + 1) ?st1) ! r = outData ?st1 ! r"
      using 2(3) by (intro copy_reference_before) simp
    ultimately show ?thesis using 0 2(3,4) by (simp add: copy_reference.simps)
  next
    case (Suc j)
    have "outData (copy_reference n (r + 1) ?st1) ! (outPtr ?st1 + j)
        = outData (copy_reference n (r + 1) ?st1) ! (r + 1 + j)"
      using 2(2,3,4) Suc by (intro 2(1)) simp_all
    then show ?thesis using Suc by (simp add: copy_reference.simps)
  qed
qed

lemma copy_reference_periodic:
  assumes "r < outPtr st" and "outPtr st + n \<le> length (outData st)"
  shows "k < n \<Longrightarrow>
    outData (copy_reference n r st) ! (outPtr st + k) = outData st ! (r + k mod (outPtr st - r))"
proof (induction k rule: less_induct)
  case (less k)
  let ?d = "outPtr st - r"
  have self: "outData (copy_reference n r st) ! (outPtr st + k)
      = outData (copy_reference n r st) ! (r + k)"
    using less.prems assms by (intro copy_reference_self)
  show ?case
  proof (cases "k < ?d")
    case True
    then have "r + k < outPtr st" by simp
    then have "outData (copy_reference n r st) ! (r + k) = outData st ! (r + k)"
      by (rule copy_reference_before)
    then show ?thesis using self True by simp
  next
    case False
    define j where "j = k - ?d"
    have j: "j < k" "j < n" "r + k = outPtr st + j" "k = j + ?d"
      using False less.prems assms(1) by (simp_all add: j_def)
    have "outData (copy_reference n r st) ! (outPtr st + j) = outData st ! (r + j mod ?d)"
      using j(1,2) by (rule less.IH)
    moreover have "k mod ?d = j mod ?d" using j(4) by simp
    ultimately show ?thesis using self j(3) by simp
  qed
qed

text \<open>
  Claim C3. At a control byte \<open>c \<ge> 32\<close> of a stream the decompressor accepts, the
  pass computes \<open>len = c >> 5\<close> (plus the next input byte when that is 7) and the start
  \<open>ref = outPtr - ((c & 0x1F) << 8) - 1 - distanceByte\<close>, which lies in the output
  written so far; it takes 2 or 3 input bytes, writes exactly \<open>len + 2\<close> bytes at
  \<open>outPtr\<close> and leaves every other byte of the buffer as it was. The copy is made one
  byte at a time, so the bytes written repeat the \<open>outPtr - ref\<close> bytes from \<open>ref\<close>
  on with that period, also where the source overlaps the bytes being written.
\<close>

theorem lzf_step_back_reference:
  assumes "ta_get inData (inPtr st) = Some c" and "32 \<le> c"
    and "lzf_step inData outLength st = Inr st'"
    and "length (outData st) = outLength"
  shows "0 \<le> reference_start inData (inPtr st) c (outPtr st)
       \<and> reference_start inData (inPtr st) c (outPtr st) < int (outPtr st)
       \<and> inPtr st' = inPtr st + reference_size c
       \<and> outPtr st' = outPtr st + (reference_length inData (inPtr st) c + 2)
       \<and> length (outData st') = outLength
       \<and> (\<forall>i < outPtr st. outData st' ! i = outData st ! i)
       \<and> (\<forall>k < reference_length inData (inPtr st) c + 2.
             outData st' ! (outPtr st + k)
               = outData st ! (nat (reference_start inData (inPtr st) c (outPtr st))
                    + k mod (outPtr st - nat (reference_start inData (inPtr st) c (outPtr st)))))
       \<and> (\<forall>i \<ge> outPtr st + (reference_length inData (inPtr st) c + 2).
             outData st' ! i = outData st ! i)"
proof -
  let ?n = "reference_length inData (inPtr st) c + 2"
  let ?ref = "reference_start inData (inPtr st) c (outPtr st)"
  let ?st1 = "st\<lparr>inPtr := inPtr st + reference_size c\<rparr>"
  have eq: "st' = copy_reference ?n (nat ?ref) ?st1"
    and fits: "outPtr st + ?n \<le> outLength" and nonneg: "0 \<le> ?ref"
    using assms(3) unfolding lzf_step_reference_cases[OF assms(1,2)]
    by (auto split: if_splits)
  have lt: "?ref < int (outPtr st)" unfolding reference_start_def by linarith
  then have r: "nat ?ref < outPtr ?st1" using nonneg by simp
  have fit1: "outPtr ?st1 + ?n \<le> length (outData ?st1)" using fits assms(4) by simp
  have per: "\<forall>k < ?n. outData st' ! (outPtr st + k)
               = outData st ! (nat ?ref + k mod (outPtr st - nat ?ref))"
    using copy_reference_periodic[OF r fit1] unfolding eq by simp
  have bef: "\<forall>i < outPtr st. outData st' ! i = outData st ! i"
    unfolding eq by (simp add: copy_reference_before)
  have aft: "\<forall>i \<ge> outPtr st + ?n. outData st' ! i = outData st ! i"
    unfolding eq by (simp add: copy_reference_after)
  show ?thesis
    using nonneg lt per bef aft assms(4) unfolding eq
    by (simp add: copy_reference_inPtr copy_reference_outPtr copy_reference_length)
qed

theorem lzf_step_back_reference_witness:
  "ta_get [1, 97, 98, 0x60, 0x01] (inPtr \<lparr>outData = [97, 98, 0, 0, 0, 0, 0], inPtr = 3, outPtr = 2\<rparr>) = Some 96
   \<and> (32 :: nat) \<le> 96
   \<and> lzf_step [1, 97, 98, 0x60, 0x01] 7 \<lparr>outData = [97, 98, 0, 0, 0, 0, 0], inPtr = 3, outPtr = 2\<rparr>
        = Inr \<lparr>outData = [97, 98, 97, 98, 97, 98, 97], inPtr = 5, outPtr = 7\<rparr>
   \<and> length (outData \<lparr>outData = [97, 98, 0, 0, 0, 0, 0 :: byte], inPtr = 3, outPtr = 2\<rparr>) = 7
   \<and> reference_length [1, 97, 98, 0x60, 0x01] 3 96 + 2 = 5
   \<and> reference_start [1, 97, 98, 0x60, 0x01] 3 96 2 = 0
   \<and> outPtr \<lparr>outData = [97, 98, 97, 98, 97, 98, 97 :: byte], inPtr = 5, outPtr = 7\<rparr>
        = outPtr \<lparr>outData = [97, 98, 0, 0, 0, 0, 0 :: byte], inPtr = 3, outPtr = 2\<rparr>
          + (reference_length [1, 97, 98, 0x60, 0x01]
               (inPtr \<lparr>outData = [97, 98, 0, 0, 0, 0, 0 :: byte], inPtr = 3, outPtr = 2\<rparr>) 96 + 2)"
proof -
  let ?I = "[1, 97, 98, 0x60, 0x01] :: byte list"
  let ?S = "\<lparr>outData = [97, 98, 0, 0, 0, 0, 0 :: byte], inPtr = 3, outPtr = 2\<rparr>"
  let ?S' = "\<lparr>outData = [97, 98, 97, 98, 97, 98, 97 :: byte], inPtr = 5, outPtr = 7\<rparr>"
  have h1: "ta_get ?I (inPtr ?S) = Some 96" by code_simp
  have h2: "(32 :: nat) \<le> 96" by simp
  have h3: "lzf_step ?I 7 ?S = Inr ?S'" by code_simp
  have h4: "length (outData ?S) = 7" by simp
  have h5: "reference_length ?I 3 96 + 2 = 5" by code_simp
  have h6: "reference_start ?I 3 96 2 = 0" by code_simp
  from lzf_step_back_reference[OF h1 h2 h3 h4] h1 h2 h3 h4 h5 h6 show ?thesis by blast
qed

subsection \<open>Malformed input\<close>

text \<open>
  The states the outer loop is in at the head of a pass: the initial one, and the one a
  pass leaves when input remains.
\<close>

inductive lzf_reachable :: "byte list \<Rightarrow> nat \<Rightarrow> lzf_state \<Rightarrow> bool"
  for inData :: "byte list" and outLength :: nat where
  start: "lzf_reachable inData outLength \<lparr>outData = replicate outLength 0, inPtr = 0, outPtr = 0\<rparr>"
| pass: "lzf_reachable inData outLength st \<Longrightarrow> lzf_step inData outLength st = Inr st' \<Longrightarrow>
         inPtr st' < length inData \<Longrightarrow> lzf_reachable inData outLength st'"

text \<open>
  What is wrong with the control sequence at \<open>inPtr\<close>, in the words of the format: the
  input ends before the sequence does (no control byte, a literal run cut short, a
  reference without its length or distance byte); the reference starts before the output
  or at or after the write position; the copy would write past the declared length.
\<close>

definition lzf_malformed :: "byte list \<Rightarrow> nat \<Rightarrow> lzf_state \<Rightarrow> bool" where
  "lzf_malformed inData outLength st =
     (case ta_get inData (inPtr st) of
        None \<Rightarrow> True
      | Some c \<Rightarrow>
          if c < 32 then
            inPtr st + 1 + (c + 1) > length inData
            \<or> outPtr st + (c + 1) > outLength
          else
            inPtr st + reference_size c > length inData
            \<or> reference_start inData (inPtr st) c (outPtr st) < 0
            \<or> reference_start inData (inPtr st) c (outPtr st) \<ge> int (outPtr st)
            \<or> outPtr st + (reference_length inData (inPtr st) c + 2) > outLength)"

lemma lzf_step_undefined:
  "ta_get inData (inPtr st) = None \<Longrightarrow> lzf_step inData outLength st = Inl InvalidCompressedData"
  by (auto simp: lzf_step_def Let_def js_lt_def ta_get_def split: if_splits)

lemma lzf_step_fails_iff:
  "(\<exists>e. lzf_step inData outLength st = Inl e) \<longleftrightarrow> lzf_malformed inData outLength st"
proof (cases "ta_get inData (inPtr st)")
  case None
  then show ?thesis by (simp add: lzf_malformed_def lzf_step_undefined)
next
  case (Some c)
  show ?thesis
  proof (cases "c < 32")
    case True
    show ?thesis unfolding lzf_step_literal_eq[OF Some True]
      using Some True by (auto simp: lzf_malformed_def)
  next
    case False
    then have ge: "32 \<le> c" by simp
    have "reference_start inData (inPtr st) c (outPtr st) < int (outPtr st)"
      unfolding reference_start_def by linarith
    then show ?thesis unfolding lzf_step_reference_cases[OF Some ge]
      using Some False by (auto simp: lzf_malformed_def)
  qed
qed

lemma lzf_loop_step_error:
  "lzf_step inData outLength st = Inl e \<Longrightarrow> lzf_loop inData outLength st = Inl e"
  by (subst lzf_loop.simps) simp

lemma lzf_reachable_loop:
  "lzf_reachable inData outLength st \<Longrightarrow>
   decompressLZF inData outLength = lzf_loop inData outLength st"
proof (induction rule: lzf_reachable.induct)
  case start
  show ?case by (simp add: decompressLZF_def)
next
  case (pass st st')
  have "lzf_loop inData outLength st = lzf_loop inData outLength st'"
    using pass(2,3) by (subst lzf_loop.simps) simp
  then show ?case using pass.IH by simp
qed

text \<open>
  Claim C2. Whenever the outer loop comes to a control sequence that is cut short by the
  end of the input, whose reference starts before the output or at or after the write
  position, or whose literal or reference copy would write past the declared output
  length, \<open>decompressLZF\<close> returns an error and no buffer. (A pass fails in exactly
  these cases, \<open>lzf_step_fails_iff\<close>; a reference never starts at or after the write
  position, the start being \<open>outPtr\<close> minus at least 1.)
\<close>

theorem decompressLZF_fails_on_malformed:
  assumes "lzf_reachable inData outLength st" and "lzf_malformed inData outLength st"
  shows "\<exists>e. decompressLZF inData outLength = Inl e"
proof -
  obtain e where "lzf_step inData outLength st = Inl e"
    using assms(2) lzf_step_fails_iff by blast
  then have "lzf_loop inData outLength st = Inl e" by (rule lzf_loop_step_error)
  then show ?thesis using lzf_reachable_loop[OF assms(1)] by simp
qed

theorem decompressLZF_fails_on_malformed_witness:
  "lzf_reachable [0, 97, 0x20] 10 \<lparr>outData = [97, 0, 0, 0, 0, 0, 0, 0, 0, 0], inPtr = 2, outPtr = 1\<rparr>
   \<and> lzf_malformed [0, 97, 0x20] 10 \<lparr>outData = [97, 0, 0, 0, 0, 0, 0, 0, 0, 0], inPtr = 2, outPtr = 1\<rparr>
   \<and> (\<exists>e. decompressLZF [0, 97, 0x20] 10 = Inl e)"
proof -
  let ?I = "[0, 97, 0x20] :: byte list"
  let ?S = "\<lparr>outData = [97, 0, 0, 0, 0, 0, 0, 0, 0, 0 :: byte], inPtr = 2, outPtr = 1\<rparr>"
  have s: "lzf_step ?I 10 \<lparr>outData = replicate 10 0, inPtr = 0, outPtr = 0\<rparr> = Inr ?S"
    by code_simp
  have h1: "lzf_reachable ?I 10 ?S"
    by (rule lzf_reachable.pass[OF lzf_reachable.start s]) simp
  have h2: "lzf_malformed ?I 10 ?S" by code_simp
  from decompressLZF_fails_on_malformed[OF h1 h2] h1 h2 show ?thesis by blast
qed

lemma lzf_loop_length:
  "lzf_loop inData outLength st = Inr out \<Longrightarrow> length (outData st) = outLength \<Longrightarrow>
   length out = outLength"
proof (induction inData outLength st rule: lzf_loop.induct)
  case (1 inData outLength st)
  from "1.prems"(1) obtain st' where step: "lzf_step inData outLength st = Inr st'"
    by (subst (asm) lzf_loop.simps) (auto split: sum.splits)
  have len: "length (outData st') = outLength"
    using step "1.prems"(2)
    by (auto simp: lzf_step_def Let_def copy_literal_length copy_reference_length
             split: if_splits)
  show ?case
  proof (cases "inPtr st' < length inData")
    case True
    have "lzf_loop inData outLength st' = Inr out"
      using "1.prems"(1) step True by (subst (asm) lzf_loop.simps) simp
    then show ?thesis using "1.IH"[OF step True _ len] by simp
  next
    case False
    then have "out = outData st'"
      using "1.prems"(1) step by (subst (asm) lzf_loop.simps) simp
    then show ?thesis using len by simp
  qed
qed

lemma decompressLZF_length:
  "decompressLZF inData outLength = Inr out \<Longrightarrow> length out = outLength"
  unfolding decompressLZF_def by (erule lzf_loop_length) simp

section \<open>JavaScript strings and numbers\<close>

text \<open>
  A JavaScript string is a sequence of UTF-16 code units; \<open>js\<close> writes an ASCII
  literal as one.
\<close>

type_synonym jsstring = "nat list"

definition js :: "string \<Rightarrow> jsstring" where
  "js s = map of_char s"

text \<open>
  The numbers of the header arithmetic and of the addresses computed from it: an
  integer or \<open>NaN\<close>. JavaScript numbers are doubles, which hold every integer of
  magnitude up to \<open>2^53\<close> exactly; the model keeps the integers beyond that exact too.
  \<open>null\<close> converts to 0 and \<open>undefined\<close> to \<open>NaN\<close> where a number is wanted;
  \<open>None\<close> stands for either, the conversion says which.
\<close>

datatype jsnum = NaN | Num int

fun js_mul :: "jsnum \<Rightarrow> jsnum \<Rightarrow> jsnum" where
  "js_mul (Num a) (Num b) = Num (a * b)"
| "js_mul _ _ = NaN"

fun js_add :: "jsnum \<Rightarrow> jsnum \<Rightarrow> jsnum" where
  "js_add (Num a) (Num b) = Num (a + b)"
| "js_add _ _ = NaN"

definition null_to_number :: "jsnum option \<Rightarrow> jsnum" where
  "null_to_number v = (case v of None \<Rightarrow> Num 0 | Some n \<Rightarrow> n)"

definition undefined_to_number :: "jsnum option \<Rightarrow> jsnum" where
  "undefined_to_number v = (case v of None \<Rightarrow> NaN | Some n \<Rightarrow> n)"

text \<open>
  \<open>xs[i]\<close> on an array: \<open>undefined\<close> (here \<open>None\<close>) out of range.
\<close>

definition arr_get :: "'a list \<Rightarrow> nat \<Rightarrow> 'a option" where
  "arr_get xs i = (if i < length xs then Some (xs ! i) else None)"

text \<open>
  The values the decoders push into the output arrays. \<open>FNum q\<close> is the number \<open>q\<close>:
  exactly the value of a 32-bit float read from a buffer, and for \<open>parseFloat\<close> the
  value of the decimal literal, which JavaScript rounds to the nearest double (the model
  does not round; the sign of a zero is not kept).
\<close>

datatype jsfloat = FNaN | FInf bool | FNum rat

text \<open>
  \<open>String.prototype.slice\<close> and \<open>ArrayBuffer.prototype.slice\<close>: a negative index
  counts from the end, and both ends are clamped to the length.
\<close>

definition js_slice :: "int \<Rightarrow> int option \<Rightarrow> 'a list \<Rightarrow> 'a list" where
  "js_slice start end xs =
     (let len = int (length xs);
          from = (if start < 0 then max (len + start) 0 else min start len);
          to = (case end of None \<Rightarrow> len
                | Some e \<Rightarrow> if e < 0 then max (len + e) 0 else min e len)
      in take (nat (to - from)) (drop (nat from) xs))"

text \<open>
  \<open>s.split(sep)\<close> for a separator of one character: empty pieces are kept, and the
  empty string splits into one empty piece.
\<close>

fun split_on :: "nat \<Rightarrow> jsstring \<Rightarrow> jsstring list" where
  "split_on sep [] = [[]]"
| "split_on sep (c # cs) =
     (if c = sep then [] # split_on sep cs
      else case split_on sep cs of [] \<Rightarrow> [[c]] | w # ws \<Rightarrow> (c # w) # ws)"

text \<open>
  The character classes of the regular expressions: \<open>\s\<close> (and its complement
  \<open>\S\<close>), and the line terminators, which \<open>.\<close> does not match. Under the \<open>i\<close>
  flag a character matches a pattern letter when its upper-case form is the letter; no
  character outside ASCII is mapped into ASCII.
\<close>

definition is_space :: "nat \<Rightarrow> bool" where
  "is_space c \<longleftrightarrow>
     c \<in> {0x09, 0x0A, 0x0B, 0x0C, 0x0D, 0x20, 0xA0, 0x1680, 0x2028, 0x2029, 0x202F, 0x205F,
          0x3000, 0xFEFF} \<or> (0x2000 \<le> c \<and> c \<le> 0x200A)"

definition is_line_terminator :: "nat \<Rightarrow> bool" where
  "is_line_terminator c \<longleftrightarrow> c \<in> {0x0A, 0x0D, 0x2028, 0x2029}"

definition canonicalize :: "nat \<Rightarrow> nat" where
  "canonicalize c = (if 0x61 \<le> c \<and> c \<le> 0x7A then c - 0x20 else c)"

fun match_ci :: "string \<Rightarrow> jsstring \<Rightarrow> bool" where
  "match_ci [] t = True"
| "match_ci (k # ks) [] = False"
| "match_ci (k # ks) (c # cs) = (canonicalize c = of_char k \<and> match_ci ks cs)"

text \<open>
  \<open>/[\r\n]DATA\s(\S*)\s/i\<close> matched at the start of \<open>t\<close>: the whole match and
  group 1. \<open>\S*\<close> is greedy, so it takes the longest run of non-space characters, and
  the match succeeds when a character follows that run (it is a space then).
  \<open>search_DATA\<close> is \<open>String.prototype.search\<close> with this expression (the index of
  the first match, or -1) and \<open>exec_DATA\<close> is \<open>RegExp.prototype.exec\<close> (the first
  match).
\<close>

definition match_DATA :: "jsstring \<Rightarrow> (jsstring \<times> jsstring) option" where
  "match_DATA t =
     (case t of
        [] \<Rightarrow> None
      | c # r \<Rightarrow>
          if (c = 0x0D \<or> c = 0x0A) \<and> match_ci ''DATA'' r then
            (case drop 4 r of
               [] \<Rightarrow> None
             | s # r2 \<Rightarrow>
                 if is_space s then
                   (let tok = takeWhile (\<lambda>x. \<not> is_space x) r2
                    in case drop (length tok) r2 of
                         [] \<Rightarrow> None
                       | s2 # _ \<Rightarrow> Some (c # take 4 r @ [s] @ tok @ [s2], tok))
                 else None)
          else None)"

fun search_DATA :: "jsstring \<Rightarrow> int" where
  "search_DATA [] = -1"
| "search_DATA (c # cs) =
     (if match_DATA (c # cs) \<noteq> None then 0
      else let r = search_DATA cs in if r < 0 then -1 else r + 1)"

fun exec_DATA :: "jsstring \<Rightarrow> (jsstring \<times> jsstring) option" where
  "exec_DATA [] = None"
| "exec_DATA (c # cs) =
     (case match_DATA (c # cs) of Some m \<Rightarrow> Some m | None \<Rightarrow> exec_DATA cs)"

text \<open>
  \<open>s.replace(/#.*/gi, '')\<close>: every \<open>#\<close> goes, with what follows it up to the next
  line terminator.
\<close>

function strip_comments :: "jsstring \<Rightarrow> jsstring" where
  "strip_comments [] = []"
| "strip_comments (c # cs) =
     (if c = 0x23 then strip_comments (dropWhile (\<lambda>x. \<not> is_line_terminator x) cs)
      else c # strip_comments cs)"
  by pat_completeness auto
termination
  by (relation "measure length") (auto simp: le_imp_less_Suc length_dropWhile_le)

text \<open>
  \<open>/KEYWORD (.*)/i.exec(s)\<close>, group 1 of the first match: \<open>kw\<close> is the keyword with
  its space, the group runs to the next line terminator. \<open>None\<close> is \<open>null\<close>.
\<close>

fun exec_keyword :: "string \<Rightarrow> jsstring \<Rightarrow> jsstring option" where
  "exec_keyword kw [] = None"
| "exec_keyword kw (c # cs) =
     (if match_ci kw (c # cs)
      then Some (takeWhile (\<lambda>x. \<not> is_line_terminator x) (drop (length kw) (c # cs)))
      else exec_keyword kw cs)"

text \<open>
  \<open>parseInt(s, 10)\<close> (\<open>parseInt10\<close>), \<open>parseInt(s)\<close>, where a prefix \<open>0x\<close>
  selects radix 16, and \<open>parseFloat(s)\<close>: leading white space is skipped, the longest
  prefix that is a numeral is read, and the result is \<open>NaN\<close> when there is none.
\<close>

definition digit_value :: "nat \<Rightarrow> nat option" where
  "digit_value c =
     (if 0x30 \<le> c \<and> c \<le> 0x39 then Some (c - 0x30)
      else if 0x61 \<le> c \<and> c \<le> 0x7A then Some (c - 0x61 + 10)
      else if 0x41 \<le> c \<and> c \<le> 0x5A then Some (c - 0x41 + 10)
      else None)"

definition is_digit :: "nat \<Rightarrow> nat \<Rightarrow> bool" where
  "is_digit radix c = (case digit_value c of None \<Rightarrow> False | Some v \<Rightarrow> v < radix)"

definition digits_value :: "nat \<Rightarrow> jsstring \<Rightarrow> int" where
  "digits_value radix ds = foldl (\<lambda>acc c. acc * int radix + int (the (digit_value c))) 0 ds"

definition parseInt_digits :: "bool \<Rightarrow> nat \<Rightarrow> jsstring \<Rightarrow> jsnum" where
  "parseInt_digits negative radix s =
     (let ds = takeWhile (is_digit radix) s
      in if ds = [] then NaN
         else Num ((if negative then -1 else 1) * digits_value radix ds))"

definition strip_sign :: "jsstring \<Rightarrow> bool \<times> jsstring" where
  "strip_sign s =
     (case s of
        [] \<Rightarrow> (False, [])
      | c # r \<Rightarrow> if c = 0x2D then (True, r) else if c = 0x2B then (False, r) else (False, s))"

definition parseInt10 :: "jsstring \<Rightarrow> jsnum" where
  "parseInt10 s = (let (negative, r) = strip_sign (dropWhile is_space s)
                   in parseInt_digits negative 10 r)"

definition parseInt :: "jsstring \<Rightarrow> jsnum" where
  "parseInt s =
     (let (negative, r) = strip_sign (dropWhile is_space s)
      in case r of
           a # b # r' \<Rightarrow>
             if a = 0x30 \<and> (b = 0x78 \<or> b = 0x58) then parseInt_digits negative 16 r'
             else parseInt_digits negative 10 r
         | _ \<Rightarrow> parseInt_digits negative 10 r)"

definition parseFloat :: "jsstring \<Rightarrow> jsfloat" where
  "parseFloat s =
     (let (negative, r) = strip_sign (dropWhile is_space s);
          sgn = (if negative then -1 else 1 :: rat)
      in if take 8 r = js ''Infinity'' then FInf negative
         else
           let ip = takeWhile (is_digit 10) r;
               r1 = drop (length ip) r;
               dot = (case r1 of c # _ \<Rightarrow> c = 0x2E | [] \<Rightarrow> False);
               fp = (if dot then takeWhile (is_digit 10) (tl r1) else []);
               r2 = (if dot then drop (length fp) (tl r1) else r1)
           in if ip = [] \<and> fp = [] then FNaN
              else
                let (eneg, r3) = (case r2 of
                        c # r' \<Rightarrow> if c = 0x65 \<or> c = 0x45 then strip_sign r' else (False, [])
                      | [] \<Rightarrow> (False, []));
                    ep = takeWhile (is_digit 10) r3;
                    mant = of_int (digits_value 10 (ip @ fp)) / 10 ^ length fp;
                    e = nat (digits_value 10 ep)
                in FNum (sgn * (if eneg then mant / 10 ^ e else mant * 10 ^ e)))"

section \<open>The header parser (\<open>parseHeader\<close>)\<close>

text \<open>
  The object \<open>PCDheader\<close>. A field that the source leaves \<open>null\<close> when its keyword
  is absent is an option. (\<open>fields\<close> and \<open>size\<close> are primed: the names are taken.)
\<close>

record pcd_header =
  data :: jsstring
  headerLen :: int
  str :: jsstring
  version :: "jsfloat option"
  fields' :: "jsstring list"
  size' :: "jsnum list option"
  type :: "jsstring list option"
  count :: "jsnum list"
  width :: "jsnum option"
  height :: "jsnum option"
  viewpoint :: "jsstring option"
  points :: jsnum
  offset :: "jsstring \<rightharpoonup> jsnum"
  rowSize :: jsnum

text \<open>
  \<open>obj[k] = v\<close> on an object made by \<open>{}\<close>: the property is set, except that for
  the key \<open>__proto__\<close> the assignment of a number does nothing.
\<close>

definition obj_set :: "(jsstring \<rightharpoonup> 'a) \<Rightarrow> jsstring \<Rightarrow> 'a \<Rightarrow> (jsstring \<rightharpoonup> 'a)" where
  "obj_set obj k v = (if k = js ''__proto__'' then obj else obj(k \<mapsto> v))"

text \<open>
  The loop over \<open>PCDheader.fields\<close> that fills \<open>PCDheader.offset\<close>, with \<open>i\<close> and
  \<open>sizeSum\<close> as arguments. \<open>PCDheader.size[i]\<close> throws when \<open>PCDheader.size\<close> is
  \<open>null\<close>.
\<close>

fun offset_loop ::
  "bool \<Rightarrow> jsstring list \<Rightarrow> jsnum list option \<Rightarrow> jsnum list \<Rightarrow> nat \<Rightarrow>
   (jsstring \<rightharpoonup> jsnum) \<Rightarrow> jsnum \<Rightarrow> error + ((jsstring \<rightharpoonup> jsnum) \<times> jsnum)" where
  "offset_loop ascii [] sizes counts i off sizeSum = Inr (off, sizeSum)"
| "offset_loop ascii (f # fs) sizes counts i off sizeSum =
     (if ascii then offset_loop ascii fs sizes counts (i + 1) (obj_set off f (Num (int i))) sizeSum
      else case sizes of
             None \<Rightarrow> Inl TypeError
           | Some sz \<Rightarrow>
               offset_loop ascii fs sizes counts (i + 1) (obj_set off f sizeSum)
                 (js_add sizeSum
                    (js_mul (undefined_to_number (arr_get sz i))
                            (undefined_to_number (arr_get counts i)))))"

text \<open>
  \<open>result2[1]\<close> throws a TypeError when \<open>exec\<close> returned \<open>null\<close>.
\<close>

definition parseHeader :: "jsstring \<Rightarrow> error + pcd_header" where
  "parseHeader dat =
     (let result1 = search_DATA dat;
          result2 = exec_DATA (js_slice (result1 - 1) None dat)
      in case result2 of
           None \<Rightarrow> Inl TypeError
         | Some (m0, m1) \<Rightarrow>
             let hl = int (length m0) + result1;
                 s = strip_comments (js_slice 0 (Some hl) dat);
                 fs = (case exec_keyword ''FIELDS '' s of
                         None \<Rightarrow> [] | Some v \<Rightarrow> split_on 0x20 v);
                 w = map_option parseInt (exec_keyword ''WIDTH '' s);
                 h = map_option parseInt (exec_keyword ''HEIGHT '' s);
                 pts = (case exec_keyword ''POINTS '' s of
                          Some v \<Rightarrow> parseInt10 v
                        | None \<Rightarrow> js_mul (null_to_number w) (null_to_number h));
                 sz = map_option (\<lambda>v. map parseInt10 (split_on 0x20 v))
                        (exec_keyword ''SIZE '' s);
                 cnt = (case exec_keyword ''COUNT '' s of
                          Some v \<Rightarrow> map parseInt10 (split_on 0x20 v)
                        | None \<Rightarrow> replicate (length fs) (Num 1))
             in case offset_loop (m1 = js ''ascii'') fs sz cnt 0 Map.empty (Num 0) of
                  Inl e \<Rightarrow> Inl e
                | Inr (off, sizeSum) \<Rightarrow>
                    Inr \<lparr>data = m1, headerLen = hl, str = s,
                         version = map_option parseFloat (exec_keyword ''VERSION '' s),
                         fields' = fs, size' = sz,
                         type = map_option (split_on 0x20) (exec_keyword ''TYPE '' s),
                         count = cnt, width = w, height = h,
                         viewpoint = exec_keyword ''VIEWPOINT '' s,
                         points = pts, offset = off, rowSize = sizeSum\<rparr>)"

section \<open>Decoding the buffer as text (\<open>TextDecoder\<close>)\<close>

text \<open>
  \<open>new TextDecoder().decode(data)\<close>: UTF-8 decoding as the Encoding Standard defines
  it, with U+FFFD for every ill-formed sequence and a leading byte order mark dropped;
  the code points are then written as UTF-16 code units. \<open>utf8_lead\<close> handles a byte
  met when no sequence is open: the code points to emit and the new state (bytes needed,
  code point so far, bounds of the next byte).
\<close>

definition utf8_lead :: "nat \<Rightarrow> nat list \<times> nat \<times> nat \<times> nat \<times> nat" where
  "utf8_lead v =
     (if v \<le> 0x7F then ([v], 0, 0, 0x80, 0xBF)
      else if 0xC2 \<le> v \<and> v \<le> 0xDF then ([], 1, v AND 0x1F, 0x80, 0xBF)
      else if 0xE0 \<le> v \<and> v \<le> 0xEF then
        ([], 2, v AND 0xF, if v = 0xE0 then 0xA0 else 0x80, if v = 0xED then 0x9F else 0xBF)
      else if 0xF0 \<le> v \<and> v \<le> 0xF4 then
        ([], 3, v AND 0x7, if v = 0xF0 then 0x90 else 0x80, if v = 0xF4 then 0x8F else 0xBF)
      else ([0xFFFD], 0, 0, 0x80, 0xBF))"

fun utf8_code_points :: "nat \<Rightarrow> nat \<Rightarrow> nat \<Rightarrow> nat \<Rightarrow> byte list \<Rightarrow> nat list" where
  "utf8_code_points needed cp lower upper [] = (if needed \<noteq> 0 then [0xFFFD] else [])"
| "utf8_code_points needed cp lower upper (b # bs) =
     (if needed \<noteq> 0 \<and> lower \<le> unat b \<and> unat b \<le> upper then
        if needed = 1 then
          (push_bit 6 cp OR (unat b AND 0x3F)) # utf8_code_points 0 0 0x80 0xBF bs
        else utf8_code_points (needed - 1) (push_bit 6 cp OR (unat b AND 0x3F)) 0x80 0xBF bs
      else
        (if needed \<noteq> 0 then [0xFFFD] else []) @
        (case utf8_lead (unat b) of
           (out, needed', cp', lower', upper') \<Rightarrow>
             out @ utf8_code_points needed' cp' lower' upper' bs))"

definition utf16_units :: "nat \<Rightarrow> nat list" where
  "utf16_units cp =
     (if cp < 0x10000 then [cp]
      else [0xD800 + drop_bit 10 (cp - 0x10000), 0xDC00 + ((cp - 0x10000) AND 0x3FF)])"

definition TextDecoder_decode :: "byte list \<Rightarrow> jsstring" where
  "TextDecoder_decode bytes =
     (let cps = utf8_code_points 0 0 0x80 0xBF bytes
      in concat (map utf16_units (case cps of c # r \<Rightarrow> if c = 0xFEFF then r else cps | [] \<Rightarrow> [])))"


section \<open>Reading numbers from a buffer (\<open>DataView\<close>)\<close>

text \<open>
  A DataView over \<open>view\<close>. The offset passed to a getter is converted with ToIndex
  (\<open>NaN\<close> becomes 0, a negative number throws), and a read that does not fit in the
  view throws a RangeError.
\<close>

definition to_index :: "jsnum \<Rightarrow> error + nat" where
  "to_index v = (case v of NaN \<Rightarrow> Inr 0 | Num k \<Rightarrow> if k < 0 then Inl RangeError else Inr (nat k))"

definition view_bytes :: "byte list \<Rightarrow> jsnum \<Rightarrow> nat \<Rightarrow> error + byte list" where
  "view_bytes view byteOffset n =
     (case to_index byteOffset of
        Inl e \<Rightarrow> Inl e
      | Inr i \<Rightarrow> if i + n > length view then Inl RangeError else Inr (take n (drop i view)))"

definition word32_of_bytes :: "bool \<Rightarrow> byte list \<Rightarrow> 32 word" where
  "word32_of_bytes littleEndian bs =
     foldl (\<lambda>acc b. push_bit 8 acc OR ucast b) 0 (if littleEndian then rev bs else bs)"

text \<open>
  The value of an IEEE 754 binary32 bit pattern.
\<close>

definition float32_value :: "32 word \<Rightarrow> jsfloat" where
  "float32_value w =
     (let negative = bit w 31;
          e = unat (drop_bit 23 w AND 0xFF);
          m = unat (w AND 0x7FFFFF);
          sgn = (if negative then -1 else 1 :: rat)
      in if e = 255 then (if m = 0 then FInf negative else FNaN)
         else if e = 0 then FNum (sgn * of_nat m / 2 ^ 149)
         else if 150 \<le> e then FNum (sgn * of_nat (2 ^ 23 + m) * 2 ^ (e - 150))
         else FNum (sgn * of_nat (2 ^ 23 + m) / 2 ^ (150 - e)))"

definition getFloat32 :: "byte list \<Rightarrow> jsnum \<Rightarrow> bool \<Rightarrow> error + jsfloat" where
  "getFloat32 view byteOffset littleEndian =
     (case view_bytes view byteOffset 4 of
        Inl e \<Rightarrow> Inl e
      | Inr bs \<Rightarrow> Inr (float32_value (word32_of_bytes littleEndian bs)))"

definition getInt32 :: "byte list \<Rightarrow> jsnum \<Rightarrow> bool \<Rightarrow> error + jsnum" where
  "getInt32 view byteOffset littleEndian =
     (case view_bytes view byteOffset 4 of
        Inl e \<Rightarrow> Inl e
      | Inr bs \<Rightarrow> Inr (Num (sint (word32_of_bytes littleEndian bs))))"

definition getUint8 :: "byte list \<Rightarrow> jsnum \<Rightarrow> error + nat" where
  "getUint8 view byteOffset =
     (case view_bytes view byteOffset 1 of
        Inl e \<Rightarrow> Inl e
      | Inr bs \<Rightarrow> Inr (unat (hd bs)))"

section \<open>The body decoders and the assembler (\<open>parse\<close>)\<close>

text \<open>
  Two things \<open>parse\<close> uses are not of this repository and round floating-point
  numbers; they are parameters here: \<open>c.set(r, g, b).convertSRGBToLinear()\<close> of
  three.js, from the three channels to \<open>c.r, c.g, c.b\<close>, and
  \<open>float32_bits\<close>, the 32-bit integer whose bits are those of a number stored as a
  32-bit float (\<open>new Int32Array(farr.buffer)[0]\<close>).
\<close>

type_synonym color_conversion = "jsfloat \<times> jsfloat \<times> jsfloat \<Rightarrow> jsfloat \<times> jsfloat \<times> jsfloat"

text \<open>
  The five arrays \<open>parse\<close> fills, and the attributes of the geometry it builds from
  them: an attribute is set only when its array is not empty.
\<close>

record pcd_arrays =
  position :: "jsfloat list"
  normal :: "jsfloat list"
  color :: "jsfloat list"
  intensity :: "jsfloat list"
  label :: "jsnum list"

record geometry =
  position_attribute :: "jsfloat list option"
  normal_attribute :: "jsfloat list option"
  color_attribute :: "jsfloat list option"
  intensity_attribute :: "jsfloat list option"
  label_attribute :: "jsnum list option"

definition no_arrays :: pcd_arrays where
  "no_arrays = \<lparr>position = [], normal = [], color = [], intensity = [], label = []\<rparr>"

definition attribute :: "'a list \<Rightarrow> 'a list option" where
  "attribute xs = (if length xs > 0 then Some xs else None)"

definition build_geometry :: "pcd_arrays \<Rightarrow> geometry" where
  "build_geometry a =
     \<lparr>position_attribute = attribute (position a),
      normal_attribute = attribute (normal a),
      color_attribute = attribute (color a),
      intensity_attribute = attribute (intensity a),
      label_attribute = attribute (label a)\<rparr>"

definition set_color :: "color_conversion \<Rightarrow> nat \<Rightarrow> nat \<Rightarrow> nat \<Rightarrow> jsfloat list" where
  "set_color convertSRGBToLinear r g b =
     (case convertSRGBToLinear
             (FNum (of_nat r / 255), FNum (of_nat g / 255), FNum (of_nat b / 255)) of
        (cr, cg, cb) \<Rightarrow> [cr, cg, cb])"

text \<open>
  \<open>xs.indexOf(x)\<close> and \<open>xs.findIndex(y => y === x)\<close>: the first index, or -1.
\<close>

definition indexOf :: "jsstring list \<Rightarrow> jsstring \<Rightarrow> int" where
  "indexOf xs x = (if x \<in> set xs then int (length (takeWhile (\<lambda>y. y \<noteq> x) xs)) else -1)"

definition arr_get_int :: "'a list \<Rightarrow> int \<Rightarrow> 'a option" where
  "arr_get_int xs i = (if 0 \<le> i then arr_get xs (nat i) else None)"

subsection \<open>ascii\<close>

text \<open>
  \<open>line[offset.f]\<close>, which is \<open>undefined\<close> when \<open>offset.f\<close> is; \<open>parseFloat\<close>
  and \<open>parseInt\<close> of \<open>undefined\<close> are \<open>NaN\<close>. \<open>float_to_int32\<close> is the conversion
  \<open>>>\<close> applies to its left operand (ToInt32).
\<close>

definition line_token :: "jsstring list \<Rightarrow> jsnum option \<Rightarrow> jsstring option" where
  "line_token line k =
     (case k of Some (Num i) \<Rightarrow> arr_get_int line i | _ \<Rightarrow> None)"

definition parseFloat_token :: "jsstring option \<Rightarrow> jsfloat" where
  "parseFloat_token t = (case t of None \<Rightarrow> FNaN | Some s \<Rightarrow> parseFloat s)"

definition parseInt_token :: "jsstring option \<Rightarrow> jsnum" where
  "parseInt_token t = (case t of None \<Rightarrow> NaN | Some s \<Rightarrow> parseInt s)"

definition float_to_int32 :: "jsfloat \<Rightarrow> int" where
  "float_to_int32 v =
     (case v of
        FNum q \<Rightarrow> signed_take_bit 31 (if 0 \<le> q then \<lfloor>q\<rfloor> else - \<lfloor>- q\<rfloor>)
      | _ \<Rightarrow> 0)"

definition err_bind :: "error + 'a \<Rightarrow> ('a \<Rightarrow> error + 'b) \<Rightarrow> error + 'b" where
  "err_bind m f = (case m of Inl e \<Rightarrow> Inl e | Inr x \<Rightarrow> f x)"

text \<open>
  The five \<open>if\<close> blocks of the loop body, one function each; each pushes onto one
  array. Only the colour block can throw (\<open>PCDheader.type\<close> may be \<open>null\<close>).
\<close>

definition ascii_position :: "pcd_header \<Rightarrow> jsstring list \<Rightarrow> pcd_arrays \<Rightarrow> pcd_arrays" where
  "ascii_position h line a =
     (if offset h (js ''x'') \<noteq> None then
        a\<lparr>position := position a @
            [parseFloat_token (line_token line (offset h (js ''x''))),
             parseFloat_token (line_token line (offset h (js ''y''))),
             parseFloat_token (line_token line (offset h (js ''z'')))]\<rparr>
      else a)"

definition ascii_rgb ::
  "color_conversion \<Rightarrow> (jsfloat \<Rightarrow> int) \<Rightarrow> pcd_header \<Rightarrow> jsstring list \<Rightarrow> pcd_arrays \<Rightarrow>
   error + pcd_arrays" where
  "ascii_rgb convertSRGBToLinear float32_bits h line a =
     (if offset h (js ''rgb'') \<noteq> None then
        (case type h of
           None \<Rightarrow> Inl TypeError
         | Some ts \<Rightarrow>
             let rgb_type = arr_get_int ts (indexOf (fields' h) (js ''rgb''));
                 float = parseFloat_token (line_token line (offset h (js ''rgb'')));
                 rgb = (if rgb_type = Some (js ''F'') then float32_bits float
                        else float_to_int32 float)
             in Inr (a\<lparr>color := color a @
                   set_color convertSRGBToLinear
                     (nat (drop_bit 16 rgb AND 0x0000ff))
                     (nat (drop_bit 8 rgb AND 0x0000ff))
                     (nat (drop_bit 0 rgb AND 0x0000ff))\<rparr>))
      else Inr a)"

definition ascii_normal :: "pcd_header \<Rightarrow> jsstring list \<Rightarrow> pcd_arrays \<Rightarrow> pcd_arrays" where
  "ascii_normal h line a =
     (if offset h (js ''normal_x'') \<noteq> None then
        a\<lparr>normal := normal a @
            [parseFloat_token (line_token line (offset h (js ''normal_x''))),
             parseFloat_token (line_token line (offset h (js ''normal_y''))),
             parseFloat_token (line_token line (offset h (js ''normal_z'')))]\<rparr>
      else a)"

definition ascii_intensity :: "pcd_header \<Rightarrow> jsstring list \<Rightarrow> pcd_arrays \<Rightarrow> pcd_arrays" where
  "ascii_intensity h line a =
     (if offset h (js ''intensity'') \<noteq> None then
        a\<lparr>intensity := intensity a @
            [parseFloat_token (line_token line (offset h (js ''intensity'')))]\<rparr>
      else a)"

definition ascii_label :: "pcd_header \<Rightarrow> jsstring list \<Rightarrow> pcd_arrays \<Rightarrow> pcd_arrays" where
  "ascii_label h line a =
     (if offset h (js ''label'') \<noteq> None then
        a\<lparr>label := label a @ [parseInt_token (line_token line (offset h (js ''label'')))]\<rparr>
      else a)"

definition ascii_line ::
  "color_conversion \<Rightarrow> (jsfloat \<Rightarrow> int) \<Rightarrow> pcd_header \<Rightarrow> jsstring \<Rightarrow> pcd_arrays \<Rightarrow>
   error + pcd_arrays" where
  "ascii_line convertSRGBToLinear float32_bits h l a =
     (let line = split_on 0x20 l
      in err_bind (ascii_rgb convertSRGBToLinear float32_bits h line (ascii_position h line a))
           (\<lambda>a2. Inr (ascii_label h line (ascii_intensity h line (ascii_normal h line a2)))))"

fun ascii_lines ::
  "color_conversion \<Rightarrow> (jsfloat \<Rightarrow> int) \<Rightarrow> pcd_header \<Rightarrow> jsstring list \<Rightarrow> pcd_arrays \<Rightarrow>
   error + pcd_arrays" where
  "ascii_lines convertSRGBToLinear float32_bits h [] a = Inr a"
| "ascii_lines convertSRGBToLinear float32_bits h (l # ls) a =
     (if l = [] then ascii_lines convertSRGBToLinear float32_bits h ls a
      else case ascii_line convertSRGBToLinear float32_bits h l a of
             Inl e \<Rightarrow> Inl e
           | Inr a' \<Rightarrow> ascii_lines convertSRGBToLinear float32_bits h ls a')"

subsection \<open>Reading one point from a DataView\<close>

fun read_floats :: "byte list \<Rightarrow> bool \<Rightarrow> jsnum list \<Rightarrow> error + jsfloat list" where
  "read_floats view littleEndian [] = Inr []"
| "read_floats view littleEndian (p # ps) =
     (case getFloat32 view p littleEndian of
        Inl e \<Rightarrow> Inl e
      | Inr v \<Rightarrow>
          (case read_floats view littleEndian ps of
             Inl e \<Rightarrow> Inl e
           | Inr vs \<Rightarrow> Inr (v # vs)))"

definition read_color :: "color_conversion \<Rightarrow> byte list \<Rightarrow> jsnum \<Rightarrow> error + jsfloat list" where
  "read_color convertSRGBToLinear view p =
     (case getUint8 view (js_add p (Num 2)) of
        Inl e \<Rightarrow> Inl e
      | Inr r \<Rightarrow>
          (case getUint8 view (js_add p (Num 1)) of
             Inl e \<Rightarrow> Inl e
           | Inr g \<Rightarrow>
               (case getUint8 view (js_add p (Num 0)) of
                  Inl e \<Rightarrow> Inl e
                | Inr b \<Rightarrow> Inr (set_color convertSRGBToLinear r g b))))"

fun addresses :: "(jsstring \<Rightarrow> error + jsnum) \<Rightarrow> jsstring list \<Rightarrow> error + jsnum list" where
  "addresses address [] = Inr []"
| "addresses address (f # fs) =
     (case address f of
        Inl e \<Rightarrow> Inl e
      | Inr p \<Rightarrow>
          (case addresses address fs of
             Inl e \<Rightarrow> Inl e
           | Inr ps \<Rightarrow> Inr (p # ps)))"

definition read_group ::
  "byte list \<Rightarrow> bool \<Rightarrow> (jsstring \<Rightarrow> error + jsnum) \<Rightarrow> jsstring list \<Rightarrow> error + jsfloat list" where
  "read_group view littleEndian address fs =
     (case addresses address fs of
        Inl e \<Rightarrow> Inl e
      | Inr ps \<Rightarrow> read_floats view littleEndian ps)"

text \<open>
  The body of both binary loops, one function for each of its five \<open>if\<close> blocks:
  \<open>address f\<close> is the argument the source passes to the DataView for field \<open>f\<close> of
  the current point.
\<close>

definition read_position ::
  "bool \<Rightarrow> (jsstring \<rightharpoonup> jsnum) \<Rightarrow> byte list \<Rightarrow> (jsstring \<Rightarrow> error + jsnum) \<Rightarrow> pcd_arrays \<Rightarrow>
   error + pcd_arrays" where
  "read_position littleEndian off view address a =
     (if off (js ''x'') \<noteq> None then
        err_bind (read_group view littleEndian address [js ''x'', js ''y'', js ''z''])
          (\<lambda>vs. Inr (a\<lparr>position := position a @ vs\<rparr>))
      else Inr a)"

definition read_rgb ::
  "color_conversion \<Rightarrow> (jsstring \<rightharpoonup> jsnum) \<Rightarrow> byte list \<Rightarrow> (jsstring \<Rightarrow> error + jsnum) \<Rightarrow>
   pcd_arrays \<Rightarrow> error + pcd_arrays" where
  "read_rgb convertSRGBToLinear off view address a =
     (if off (js ''rgb'') \<noteq> None then
        err_bind (address (js ''rgb''))
          (\<lambda>p. err_bind (read_color convertSRGBToLinear view p)
             (\<lambda>vs. Inr (a\<lparr>color := color a @ vs\<rparr>)))
      else Inr a)"

definition read_normal ::
  "bool \<Rightarrow> (jsstring \<rightharpoonup> jsnum) \<Rightarrow> byte list \<Rightarrow> (jsstring \<Rightarrow> error + jsnum) \<Rightarrow> pcd_arrays \<Rightarrow>
   error + pcd_arrays" where
  "read_normal littleEndian off view address a =
     (if off (js ''normal_x'') \<noteq> None then
        err_bind (read_group view littleEndian address
                    [js ''normal_x'', js ''normal_y'', js ''normal_z''])
          (\<lambda>vs. Inr (a\<lparr>normal := normal a @ vs\<rparr>))
      else Inr a)"

definition read_intensity ::
  "bool \<Rightarrow> (jsstring \<rightharpoonup> jsnum) \<Rightarrow> byte list \<Rightarrow> (jsstring \<Rightarrow> error + jsnum) \<Rightarrow> pcd_arrays \<Rightarrow>
   error + pcd_arrays" where
  "read_intensity littleEndian off view address a =
     (if off (js ''intensity'') \<noteq> None then
        err_bind (read_group view littleEndian address [js ''intensity''])
          (\<lambda>vs. Inr (a\<lparr>intensity := intensity a @ vs\<rparr>))
      else Inr a)"

definition read_label ::
  "bool \<Rightarrow> (jsstring \<rightharpoonup> jsnum) \<Rightarrow> byte list \<Rightarrow> (jsstring \<Rightarrow> error + jsnum) \<Rightarrow> pcd_arrays \<Rightarrow>
   error + pcd_arrays" where
  "read_label littleEndian off view address a =
     (if off (js ''label'') \<noteq> None then
        err_bind (address (js ''label''))
          (\<lambda>p. err_bind (getInt32 view p littleEndian)
             (\<lambda>v. Inr (a\<lparr>label := label a @ [v]\<rparr>)))
      else Inr a)"

definition read_point ::
  "color_conversion \<Rightarrow> bool \<Rightarrow> (jsstring \<rightharpoonup> jsnum) \<Rightarrow> byte list \<Rightarrow>
   (jsstring \<Rightarrow> error + jsnum) \<Rightarrow> pcd_arrays \<Rightarrow> error + pcd_arrays" where
  "read_point convertSRGBToLinear littleEndian off view address a =
     err_bind (read_position littleEndian off view address a)
       (\<lambda>a1. err_bind (read_rgb convertSRGBToLinear off view address a1)
          (\<lambda>a2. err_bind (read_normal littleEndian off view address a2)
             (\<lambda>a3. err_bind (read_intensity littleEndian off view address a3)
                (\<lambda>a4. read_label littleEndian off view address a4))))"

definition loop_count :: "jsnum \<Rightarrow> nat" where
  "loop_count n = (case n of NaN \<Rightarrow> 0 | Num p \<Rightarrow> nat p)"

subsection \<open>binary_compressed\<close>

text \<open>
  \<open>(PCDheader.points * offset.f) + PCDheader.size[fIndex] * i\<close>.
\<close>

definition compressed_address :: "pcd_header \<Rightarrow> nat \<Rightarrow> jsstring \<Rightarrow> error + jsnum" where
  "compressed_address h i f =
     (case size' h of
        None \<Rightarrow> Inl TypeError
      | Some sz \<Rightarrow>
          Inr (js_add (js_mul (points h) (undefined_to_number (offset h f)))
                 (js_mul (undefined_to_number (arr_get_int sz (indexOf (fields' h) f)))
                    (Num (int i)))))"

fun compressed_points ::
  "color_conversion \<Rightarrow> bool \<Rightarrow> pcd_header \<Rightarrow> byte list \<Rightarrow> nat \<Rightarrow> nat \<Rightarrow> pcd_arrays \<Rightarrow>
   error + pcd_arrays" where
  "compressed_points convertSRGBToLinear littleEndian h view 0 i a = Inr a"
| "compressed_points convertSRGBToLinear littleEndian h view (Suc n) i a =
     (case read_point convertSRGBToLinear littleEndian (offset h) view
             (compressed_address h i) a of
        Inl e \<Rightarrow> Inl e
      | Inr a' \<Rightarrow> compressed_points convertSRGBToLinear littleEndian h view n (i + 1) a')"

text \<open>
  The two sizes are read with \<open>new Uint32Array(data.slice(headerLen, headerLen + 8))\<close>,
  little-endian. When fewer than 8 bytes follow the header, that constructor throws a
  RangeError (1, 2, 3, 5, 6 or 7 bytes) or \<open>new Uint8Array(data, headerLen + 8, n)\<close>
  does (0 or 4 bytes); the latter also throws when the buffer is shorter than the
  compressed size says.
\<close>

definition parse_binary_compressed ::
  "color_conversion \<Rightarrow> bool \<Rightarrow> pcd_header \<Rightarrow> byte list \<Rightarrow> pcd_arrays \<Rightarrow> error + pcd_arrays" where
  "parse_binary_compressed convertSRGBToLinear littleEndian h dat a =
     (let sizes = js_slice (headerLen h) (Some (headerLen h + 8)) dat
      in if length sizes \<noteq> 8 then Inl RangeError
         else
           let compressedSize = unat (word32_of_bytes True (take 4 sizes));
               decompressedSize = unat (word32_of_bytes True (drop 4 sizes))
           in if headerLen h + 8 < 0
                 \<or> headerLen h + 8 + int compressedSize > int (length dat)
              then Inl RangeError
              else
                (case decompressLZF (take compressedSize (drop (nat (headerLen h + 8)) dat))
                        decompressedSize of
                   Inl e \<Rightarrow> Inl e
                 | Inr decompressed \<Rightarrow>
                     compressed_points convertSRGBToLinear littleEndian h decompressed
                       (loop_count (points h)) 0 a))"

subsection \<open>binary\<close>

text \<open>
  \<open>row + offset.f\<close>. \<open>new DataView(data, headerLen)\<close> throws a RangeError when the
  header length is beyond the buffer.
\<close>

definition binary_address :: "pcd_header \<Rightarrow> jsnum \<Rightarrow> jsstring \<Rightarrow> error + jsnum" where
  "binary_address h row f = Inr (js_add row (undefined_to_number (offset h f)))"

fun binary_points ::
  "color_conversion \<Rightarrow> bool \<Rightarrow> pcd_header \<Rightarrow> byte list \<Rightarrow> nat \<Rightarrow> jsnum \<Rightarrow> pcd_arrays \<Rightarrow>
   error + pcd_arrays" where
  "binary_points convertSRGBToLinear littleEndian h view 0 row a = Inr a"
| "binary_points convertSRGBToLinear littleEndian h view (Suc n) row a =
     (case read_point convertSRGBToLinear littleEndian (offset h) view (binary_address h row) a of
        Inl e \<Rightarrow> Inl e
      | Inr a' \<Rightarrow>
          binary_points convertSRGBToLinear littleEndian h view n (js_add row (rowSize h)) a')"

definition parse_binary ::
  "color_conversion \<Rightarrow> bool \<Rightarrow> pcd_header \<Rightarrow> byte list \<Rightarrow> pcd_arrays \<Rightarrow> error + pcd_arrays" where
  "parse_binary convertSRGBToLinear littleEndian h dat a =
     (if headerLen h < 0 \<or> headerLen h > int (length dat) then Inl RangeError
      else binary_points convertSRGBToLinear littleEndian h (drop (nat (headerLen h)) dat)
             (loop_count (points h)) (Num 0) a)"

subsection \<open>parse\<close>

text \<open>
  The three \<open>if\<close> statements on \<open>PCDheader.data\<close> follow one another, as in the
  source; \<open>this.littleEndian\<close> is the argument \<open>littleEndian\<close>.
\<close>

definition parse ::
  "color_conversion \<Rightarrow> (jsfloat \<Rightarrow> int) \<Rightarrow> bool \<Rightarrow> byte list \<Rightarrow> error + geometry" where
  "parse convertSRGBToLinear float32_bits littleEndian dat =
     (let textData = TextDecoder_decode dat
      in case parseHeader textData of
           Inl e \<Rightarrow> Inl e
         | Inr PCDheader \<Rightarrow>
        (case (if data PCDheader = js ''ascii'' then
                 ascii_lines convertSRGBToLinear float32_bits PCDheader
                   (split_on 0x0A (js_slice (headerLen PCDheader) None textData)) no_arrays
               else Inr no_arrays) of
           Inl e \<Rightarrow> Inl e
         | Inr a1 \<Rightarrow>
        (case (if data PCDheader = js ''binary_compressed'' then
                 parse_binary_compressed convertSRGBToLinear littleEndian PCDheader dat a1
               else Inr a1) of
           Inl e \<Rightarrow> Inl e
         | Inr a2 \<Rightarrow>
        (case (if data PCDheader = js ''binary'' then
                 parse_binary convertSRGBToLinear littleEndian PCDheader dat a2
               else Inr a2) of
           Inl e \<Rightarrow> Inl e
         | Inr a3 \<Rightarrow> Inr (build_geometry a3)))))"

section \<open>Properties of the header parser\<close>

text \<open>
  The bytes of an ASCII text, for the examples.
\<close>

definition ascii_bytes :: "string \<Rightarrow> byte list" where
  "ascii_bytes s = map of_char s"


lemmas eval_defs = match_DATA_def canonicalize_def is_space_def is_line_terminator_def
  js_slice_def parseInt_def parseInt10_def parseInt_digits_def strip_sign_def is_digit_def
  digit_value_def digits_value_def null_to_number_def undefined_to_number_def arr_get_def
  obj_set_def js_def parseFloat_def arr_get_int_def err_bind_def

lemma parseHeader_InrD:
  assumes "parseHeader t = Inr h"
  shows "\<exists>m0. exec_DATA (js_slice (search_DATA t - 1) None t) = Some (m0, data h)
            \<and> headerLen h = int (length m0) + search_DATA t"
    and "str h = strip_comments (js_slice 0 (Some (headerLen h)) t)"
    and "fields' h = (case exec_keyword ''FIELDS '' (str h) of None \<Rightarrow> [] | Some v \<Rightarrow> split_on 0x20 v)"
    and "width h = map_option parseInt (exec_keyword ''WIDTH '' (str h))"
    and "height h = map_option parseInt (exec_keyword ''HEIGHT '' (str h))"
    and "points h = (case exec_keyword ''POINTS '' (str h) of
                       Some v \<Rightarrow> parseInt10 v
                     | None \<Rightarrow> js_mul (null_to_number (width h)) (null_to_number (height h)))"
    and "size' h = map_option (\<lambda>v. map parseInt10 (split_on 0x20 v)) (exec_keyword ''SIZE '' (str h))"
    and "count h = (case exec_keyword ''COUNT '' (str h) of
                      Some v \<Rightarrow> map parseInt10 (split_on 0x20 v)
                    | None \<Rightarrow> replicate (length (fields' h)) (Num 1))"
    and "offset_loop (data h = js ''ascii'') (fields' h) (size' h) (count h) 0 Map.empty (Num 0)
           = Inr (offset h, rowSize h)"
  using assms
  unfolding parseHeader_def Let_def
  by (auto split: option.splits sum.splits prod.splits)



text \<open>
  Claim C9. The ASCII input of the claim decodes to positions \<open>[1, 2, 3, 4, 5, 6]\<close> and
  no other attribute, whatever the colour conversion and the byte order; the empty piece
  after the last newline of the body is skipped.
\<close>

theorem parse_ascii_example:
  "parse convertSRGBToLinear float32_bits littleEndian
     (ascii_bytes ''FIELDS x y z\<newline>SIZE 4 4 4\<newline>TYPE F F F\<newline>DATA ascii\<newline>1 2 3\<newline>4 5 6\<newline>'')
   = Inr \<lparr>position_attribute = Some [FNum 1, FNum 2, FNum 3, FNum 4, FNum 5, FNum 6],
          normal_attribute = None, color_attribute = None, intensity_attribute = None,
          label_attribute = None\<rparr>"
proof -
  have d: "TextDecoder_decode
      (ascii_bytes ''FIELDS x y z\<newline>SIZE 4 4 4\<newline>TYPE F F F\<newline>DATA ascii\<newline>1 2 3\<newline>4 5 6\<newline>'')
    = js ''FIELDS x y z\<newline>SIZE 4 4 4\<newline>TYPE F F F\<newline>DATA ascii\<newline>1 2 3\<newline>4 5 6\<newline>''"
    by (simp add: TextDecoder_decode_def ascii_bytes_def utf8_lead_def utf16_units_def js_def)
  show ?thesis
    unfolding parse_def d
    by (simp add: parseHeader_def Let_def eval_defs ascii_line_def ascii_position_def
          ascii_rgb_def ascii_normal_def ascii_intensity_def ascii_label_def line_token_def
          parseFloat_token_def no_arrays_def build_geometry_def attribute_def)
qed

lemma match_ci_take: "match_ci kw r \<Longrightarrow> match_ci kw (take (length kw) r) \<and> length kw \<le> length r"
  by (induction kw r rule: match_ci.induct) auto


lemma match_DATA_Cons:
  "match_DATA (nl # r) =
     (if (nl = 0x0D \<or> nl = 0x0A) \<and> match_ci ''DATA'' r then
        (case drop 4 r of
           [] \<Rightarrow> None
         | sp # r2 \<Rightarrow>
             if is_space sp then
               (case dropWhile (\<lambda>x. \<not> is_space x) r2 of
                  [] \<Rightarrow> None
                | ws # _ \<Rightarrow>
                    Some (nl # take 4 r @ [sp] @ takeWhile (\<lambda>x. \<not> is_space x) r2 @ [ws],
                          takeWhile (\<lambda>x. \<not> is_space x) r2))
             else None)
      else None)"
  unfolding match_DATA_def Let_def dropWhile_eq_drop[symmetric] by simp

lemma match_DATA_SomeD:
  assumes "match_DATA u = Some (m0, m1)"
  shows "\<exists>nl kw sp ws rest. u = nl # kw @ sp # m1 @ ws # rest \<and> (nl = 0x0D \<or> nl = 0x0A)
           \<and> length kw = 4 \<and> match_ci ''DATA'' kw \<and> is_space sp
           \<and> (\<forall>c \<in> set m1. \<not> is_space c) \<and> is_space ws \<and> m0 = nl # kw @ sp # m1 @ [ws]"
proof (cases u)
  case Nil
  then show ?thesis using assms by (simp add: match_DATA_def)
next
  case (Cons nl r)
  note a = assms[unfolded Cons match_DATA_Cons]
  have c: "(nl = 0x0D \<or> nl = 0x0A) \<and> match_ci ''DATA'' r"
  proof (rule ccontr)
    assume n: "\<not> ((nl = 0x0D \<or> nl = 0x0A) \<and> match_ci ''DATA'' r)"
    from a show False unfolding if_not_P[OF n] by simp
  qed
  note a1 = a[unfolded if_P[OF c]]
  obtain sp r2 where r: "drop 4 r = sp # r2"
    using a1 by (cases "drop 4 r") simp_all
  note a2 = a1[unfolded r list.case]
  have sp: "is_space sp"
  proof (rule ccontr)
    assume n: "\<not> is_space sp"
    from a2 show False unfolding if_not_P[OF n] by simp
  qed
  note a3 = a2[unfolded if_P[OF sp]]
  let ?tok = "takeWhile (\<lambda>x. \<not> is_space x) r2"
  obtain ws rest where d: "dropWhile (\<lambda>x. \<not> is_space x) r2 = ws # rest"
    using a3 by (cases "dropWhile (\<lambda>x. \<not> is_space x) r2") simp_all
  from a3[unfolded d list.case] have m: "m0 = nl # take 4 r @ [sp] @ ?tok @ [ws]" "m1 = ?tok"
    by auto
  have ws: "is_space ws"
    using d hd_dropWhile[of "\<lambda>x. \<not> is_space x" r2] by auto
  have r2': "r2 = m1 @ ws # rest"
    using d m(2) takeWhile_dropWhile_id[of "\<lambda>x. \<not> is_space x" r2] by simp
  have r': "r = take 4 r @ sp # r2" using r by (metis append_take_drop_id)
  have l4: "length ''DATA'' = 4" by simp
  have k4: "length (take 4 r) = 4" "match_ci ''DATA'' (take 4 r)"
    using match_ci_take[OF conjunct2[OF c]] unfolding l4 by simp_all
  have tok: "\<forall>c \<in> set m1. \<not> is_space c"
    using m(2) by (auto dest: set_takeWhileD)
  have u: "u = nl # take 4 r @ sp # m1 @ ws # rest"
    using Cons r' r2' by simp
  have m0: "m0 = nl # take 4 r @ sp # m1 @ [ws]" using m by simp
  show ?thesis
    using u conjunct1[OF c] k4 sp tok ws m0 by blast
qed







lemma js_slice_drop: "0 \<le> k \<Longrightarrow> js_slice k None t = drop (nat k) t"
  by (simp add: js_slice_def Let_def min_def)


lemma search_DATA_nonneg_iff: "search_DATA t \<ge> -1"
  by (induction t) (auto simp: Let_def)









subsection \<open>Field offsets\<close>

text \<open>
  In the words of the spec: \<open>size[g] * count[g]\<close>, and its sum over the fields before
  field \<open>i\<close>, in JavaScript arithmetic (an entry missing from \<open>SIZE\<close> or \<open>COUNT\<close> is
  \<open>undefined\<close> and makes the sum \<open>NaN\<close>). \<open>cumulative_bytes_Num\<close> below gives the sum
  for integer sizes and counts.
\<close>

definition field_bytes :: "jsnum list \<Rightarrow> jsnum list \<Rightarrow> nat \<Rightarrow> jsnum" where
  "field_bytes sz cnt g =
     js_mul (undefined_to_number (arr_get sz g)) (undefined_to_number (arr_get cnt g))"

definition cumulative_bytes :: "jsnum list \<Rightarrow> jsnum list \<Rightarrow> nat \<Rightarrow> jsnum" where
  "cumulative_bytes sz cnt i = foldl js_add (Num 0) (map (field_bytes sz cnt) [0..<i])"

definition sizes :: "pcd_header \<Rightarrow> jsnum list" where
  "sizes h = (case size' h of None \<Rightarrow> [] | Some sz \<Rightarrow> sz)"



lemma offset_loop_dom:
  "offset_loop a fs sz cnt i off s = Inr (off', s') \<Longrightarrow>
   dom off' = dom off \<union> (set fs - {js ''__proto__''})"
proof (induction fs arbitrary: i off s)
  case Nil
  then show ?case by simp
next
  case (Cons g gs)
  show ?case
  proof (cases a)
    case True
    then have "offset_loop a gs sz cnt (i + 1) (obj_set off g (Num (int i))) s = Inr (off', s')"
      using Cons.prems by simp
    from Cons.IH[OF this] show ?thesis by (auto simp: obj_set_def split: if_splits)
  next
    case False
    then obtain z where z: "sz = Some z" using Cons.prems by (cases sz) auto
    have "offset_loop a gs sz cnt (i + 1) (obj_set off g s)
            (js_add s (js_mul (undefined_to_number (arr_get z i))
                              (undefined_to_number (arr_get cnt i)))) = Inr (off', s')"
      using Cons.prems False z by simp
    from Cons.IH[OF this] show ?thesis by (auto simp: obj_set_def split: if_splits)
  qed
qed





lemma sum_upt_Suc: "(\<Sum>j < Suc i. f j) = (\<Sum>j < i. f j) + (f i :: int)"
  by simp

lemma cumulative_bytes_Num:
  assumes "i \<le> length ss" and "i \<le> length cs"
  shows "cumulative_bytes (map Num ss) (map Num cs) i = Num (\<Sum>g < i. ss ! g * cs ! g)"
  using assms
proof (induction i)
  case 0
  then show ?case by (simp add: cumulative_bytes_def)
next
  case (Suc i)
  then have "cumulative_bytes (map Num ss) (map Num cs) i = Num (\<Sum>g < i. ss ! g * cs ! g)"
    by simp
  moreover have "field_bytes (map Num ss) (map Num cs) i = Num (ss ! i * cs ! i)"
    using Suc.prems by (simp add: field_bytes_def arr_get_def undefined_to_number_def)
  ultimately show ?case by (simp add: cumulative_bytes_def)
qed


section \<open>The decoded arrays\<close>

text \<open>
  Each pass of a decoding loop pushes a group of values onto the five arrays. The values
  pushed by one pass are collected in a record of their own, so that the arrays after the
  loop are the chunks of its passes, one after the other.
\<close>

definition arrays_append :: "pcd_arrays \<Rightarrow> pcd_arrays \<Rightarrow> pcd_arrays" where
  "arrays_append a c =
     \<lparr>position = position a @ position c, normal = normal a @ normal c,
      color = color a @ color c, intensity = intensity a @ intensity c,
      label = label a @ label c\<rparr>"

lemma arrays_append_simps [simp]:
  "position (arrays_append a c) = position a @ position c"
  "normal (arrays_append a c) = normal a @ normal c"
  "color (arrays_append a c) = color a @ color c"
  "intensity (arrays_append a c) = intensity a @ intensity c"
  "label (arrays_append a c) = label a @ label c"
  by (simp_all add: arrays_append_def)

lemma arrays_append_no_arrays [simp]: "arrays_append a no_arrays = a"
  by (simp add: arrays_append_def no_arrays_def)

lemma foldl_arrays_append:
  "position (foldl arrays_append a cs) = position a @ concat (map position cs)"
  "normal (foldl arrays_append a cs) = normal a @ concat (map normal cs)"
  "color (foldl arrays_append a cs) = color a @ concat (map color cs)"
  "intensity (foldl arrays_append a cs) = intensity a @ concat (map intensity cs)"
  "label (foldl arrays_append a cs) = label a @ concat (map label cs)"
  by (induction cs arbitrary: a) simp_all

text \<open>
  What one pass of a binary loop pushes, read off its five \<open>if\<close> blocks: for every
  block whose offset entry is defined, the values that the DataView returns at the
  addresses of the fields; nothing for the other blocks.
\<close>

definition point_chunk ::
  "color_conversion \<Rightarrow> bool \<Rightarrow> (jsstring \<rightharpoonup> jsnum) \<Rightarrow> byte list \<Rightarrow>
   (jsstring \<Rightarrow> error + jsnum) \<Rightarrow> pcd_arrays \<Rightarrow> bool" where
  "point_chunk convertSRGBToLinear littleEndian off view address c \<longleftrightarrow>
     (if off (js ''x'') \<noteq> None then
        \<exists>px py pz vx vy vz.
          address (js ''x'') = Inr px \<and> address (js ''y'') = Inr py \<and> address (js ''z'') = Inr pz
          \<and> getFloat32 view px littleEndian = Inr vx \<and> getFloat32 view py littleEndian = Inr vy
          \<and> getFloat32 view pz littleEndian = Inr vz \<and> position c = [vx, vy, vz]
      else position c = [])
   \<and> (if off (js ''rgb'') \<noteq> None then
        \<exists>p r g b.
          address (js ''rgb'') = Inr p \<and> getUint8 view (js_add p (Num 2)) = Inr r
          \<and> getUint8 view (js_add p (Num 1)) = Inr g \<and> getUint8 view (js_add p (Num 0)) = Inr b
          \<and> color c = set_color convertSRGBToLinear r g b
      else color c = [])
   \<and> (if off (js ''normal_x'') \<noteq> None then
        \<exists>px py pz vx vy vz.
          address (js ''normal_x'') = Inr px \<and> address (js ''normal_y'') = Inr py
          \<and> address (js ''normal_z'') = Inr pz
          \<and> getFloat32 view px littleEndian = Inr vx \<and> getFloat32 view py littleEndian = Inr vy
          \<and> getFloat32 view pz littleEndian = Inr vz \<and> normal c = [vx, vy, vz]
      else normal c = [])
   \<and> (if off (js ''intensity'') \<noteq> None then
        \<exists>p v. address (js ''intensity'') = Inr p \<and> getFloat32 view p littleEndian = Inr v
          \<and> intensity c = [v]
      else intensity c = [])
   \<and> (if off (js ''label'') \<noteq> None then
        \<exists>p v. address (js ''label'') = Inr p \<and> getInt32 view p littleEndian = Inr v
          \<and> label c = [v]
      else label c = [])"

lemma read_group3:
  "read_group view le address [f1, f2, f3] = Inr vs \<Longrightarrow>
   \<exists>p1 p2 p3 v1 v2 v3. address f1 = Inr p1 \<and> address f2 = Inr p2 \<and> address f3 = Inr p3
     \<and> getFloat32 view p1 le = Inr v1 \<and> getFloat32 view p2 le = Inr v2
     \<and> getFloat32 view p3 le = Inr v3 \<and> vs = [v1, v2, v3]"
  by (auto simp: read_group_def split: sum.splits)

lemma read_group1:
  "read_group view le address [f1] = Inr vs \<Longrightarrow>
   \<exists>p1 v1. address f1 = Inr p1 \<and> getFloat32 view p1 le = Inr v1 \<and> vs = [v1]"
  by (auto simp: read_group_def split: sum.splits)

lemma read_color_InrD:
  "read_color cvt view p = Inr vs \<Longrightarrow>
   \<exists>r g b. getUint8 view (js_add p (Num 2)) = Inr r \<and> getUint8 view (js_add p (Num 1)) = Inr g
     \<and> getUint8 view (js_add p (Num 0)) = Inr b \<and> vs = set_color cvt r g b"
  by (auto simp: read_color_def split: sum.splits)

lemma err_bind_InrD: "err_bind m f = Inr y \<Longrightarrow> \<exists>x. m = Inr x \<and> f x = Inr y"
  by (cases m) (simp_all add: err_bind_def)

lemma err_bind_simps [simp]:
  "err_bind (Inl e) f = Inl e" "err_bind (Inr x) f = f x"
  by (simp_all add: err_bind_def)

lemma read_position_InrD:
  assumes "read_position le off view address a = Inr a'"
  shows "\<exists>vs. a' = a\<lparr>position := position a @ vs\<rparr>
     \<and> (if off (js ''x'') \<noteq> None then
          \<exists>px py pz vx vy vz.
            address (js ''x'') = Inr px \<and> address (js ''y'') = Inr py \<and> address (js ''z'') = Inr pz
            \<and> getFloat32 view px le = Inr vx \<and> getFloat32 view py le = Inr vy
            \<and> getFloat32 view pz le = Inr vz \<and> vs = [vx, vy, vz]
        else vs = [])"
proof (cases "off (js ''x'') \<noteq> None")
  case True
  then obtain vs where g: "read_group view le address [js ''x'', js ''y'', js ''z''] = Inr vs"
    and a': "a' = a\<lparr>position := position a @ vs\<rparr>"
    using assms by (auto simp: read_position_def dest!: err_bind_InrD)
  from read_group3[OF g] a' True show ?thesis by auto
next
  case False
  then have "a' = a\<lparr>position := position a @ []\<rparr>" using assms by (simp add: read_position_def)
  then show ?thesis using False by auto
qed

lemma read_normal_InrD:
  assumes "read_normal le off view address a = Inr a'"
  shows "\<exists>vs. a' = a\<lparr>normal := normal a @ vs\<rparr>
     \<and> (if off (js ''normal_x'') \<noteq> None then
          \<exists>px py pz vx vy vz.
            address (js ''normal_x'') = Inr px \<and> address (js ''normal_y'') = Inr py
            \<and> address (js ''normal_z'') = Inr pz
            \<and> getFloat32 view px le = Inr vx \<and> getFloat32 view py le = Inr vy
            \<and> getFloat32 view pz le = Inr vz \<and> vs = [vx, vy, vz]
        else vs = [])"
proof (cases "off (js ''normal_x'') \<noteq> None")
  case True
  then obtain vs where
    g: "read_group view le address [js ''normal_x'', js ''normal_y'', js ''normal_z''] = Inr vs"
    and a': "a' = a\<lparr>normal := normal a @ vs\<rparr>"
    using assms by (auto simp: read_normal_def dest!: err_bind_InrD)
  from read_group3[OF g] a' True show ?thesis by auto
next
  case False
  then have "a' = a\<lparr>normal := normal a @ []\<rparr>" using assms by (simp add: read_normal_def)
  then show ?thesis using False by auto
qed

lemma read_intensity_InrD:
  assumes "read_intensity le off view address a = Inr a'"
  shows "\<exists>vs. a' = a\<lparr>intensity := intensity a @ vs\<rparr>
     \<and> (if off (js ''intensity'') \<noteq> None then
          \<exists>p v. address (js ''intensity'') = Inr p \<and> getFloat32 view p le = Inr v \<and> vs = [v]
        else vs = [])"
proof (cases "off (js ''intensity'') \<noteq> None")
  case True
  then obtain vs where g: "read_group view le address [js ''intensity''] = Inr vs"
    and a': "a' = a\<lparr>intensity := intensity a @ vs\<rparr>"
    using assms by (auto simp: read_intensity_def dest!: err_bind_InrD)
  from read_group1[OF g] a' True show ?thesis by auto
next
  case False
  then have "a' = a\<lparr>intensity := intensity a @ []\<rparr>"
    using assms by (simp add: read_intensity_def)
  then show ?thesis using False by auto
qed

lemma read_rgb_InrD:
  assumes "read_rgb cvt off view address a = Inr a'"
  shows "\<exists>vs. a' = a\<lparr>color := color a @ vs\<rparr>
     \<and> (if off (js ''rgb'') \<noteq> None then
          \<exists>p r g b.
            address (js ''rgb'') = Inr p \<and> getUint8 view (js_add p (Num 2)) = Inr r
            \<and> getUint8 view (js_add p (Num 1)) = Inr g \<and> getUint8 view (js_add p (Num 0)) = Inr b
            \<and> vs = set_color cvt r g b
        else vs = [])"
proof (cases "off (js ''rgb'') \<noteq> None")
  case True
  then obtain p vs where p: "address (js ''rgb'') = Inr p"
    and g: "read_color cvt view p = Inr vs"
    and a': "a' = a\<lparr>color := color a @ vs\<rparr>"
    using assms by (auto simp: read_rgb_def dest!: err_bind_InrD)
  from read_color_InrD[OF g] p a' True show ?thesis by auto
next
  case False
  then have "a' = a\<lparr>color := color a @ []\<rparr>" using assms by (simp add: read_rgb_def)
  then show ?thesis using False by auto
qed

lemma read_label_InrD:
  assumes "read_label le off view address a = Inr a'"
  shows "\<exists>vs. a' = a\<lparr>label := label a @ vs\<rparr>
     \<and> (if off (js ''label'') \<noteq> None then
          \<exists>p v. address (js ''label'') = Inr p \<and> getInt32 view p le = Inr v \<and> vs = [v]
        else vs = [])"
proof (cases "off (js ''label'') \<noteq> None")
  case True
  then obtain p v where p: "address (js ''label'') = Inr p"
    and g: "getInt32 view p le = Inr v"
    and a': "a' = a\<lparr>label := label a @ [v]\<rparr>"
    using assms by (auto simp: read_label_def dest!: err_bind_InrD)
  then show ?thesis using True by auto
next
  case False
  then have "a' = a\<lparr>label := label a @ []\<rparr>" using assms by (simp add: read_label_def)
  then show ?thesis using False by auto
qed

lemma read_point_InrD:
  assumes "read_point cvt le off view address a = Inr a'"
  shows "\<exists>c. a' = arrays_append a c \<and> point_chunk cvt le off view address c"
proof -
  from assms obtain a1 a2 a3 a4 where
    s1: "read_position le off view address a = Inr a1"
    and s2: "read_rgb cvt off view address a1 = Inr a2"
    and s3: "read_normal le off view address a2 = Inr a3"
    and s4: "read_intensity le off view address a3 = Inr a4"
    and s5: "read_label le off view address a4 = Inr a'"
    unfolding read_point_def by (blast dest!: err_bind_InrD)
  from read_position_InrD[OF s1] obtain ps where
    ps: "a1 = a\<lparr>position := position a @ ps\<rparr>"
      "if off (js ''x'') \<noteq> None then
          \<exists>px py pz vx vy vz.
            address (js ''x'') = Inr px \<and> address (js ''y'') = Inr py \<and> address (js ''z'') = Inr pz
            \<and> getFloat32 view px le = Inr vx \<and> getFloat32 view py le = Inr vy
            \<and> getFloat32 view pz le = Inr vz \<and> ps = [vx, vy, vz]
        else ps = []" by blast
  from read_rgb_InrD[OF s2] obtain cs where
    cs: "a2 = a1\<lparr>color := color a1 @ cs\<rparr>"
      "if off (js ''rgb'') \<noteq> None then
          \<exists>p r g b.
            address (js ''rgb'') = Inr p \<and> getUint8 view (js_add p (Num 2)) = Inr r
            \<and> getUint8 view (js_add p (Num 1)) = Inr g \<and> getUint8 view (js_add p (Num 0)) = Inr b
            \<and> cs = set_color cvt r g b
        else cs = []" by blast
  from read_normal_InrD[OF s3] obtain ns where
    ns: "a3 = a2\<lparr>normal := normal a2 @ ns\<rparr>"
      "if off (js ''normal_x'') \<noteq> None then
          \<exists>px py pz vx vy vz.
            address (js ''normal_x'') = Inr px \<and> address (js ''normal_y'') = Inr py
            \<and> address (js ''normal_z'') = Inr pz
            \<and> getFloat32 view px le = Inr vx \<and> getFloat32 view py le = Inr vy
            \<and> getFloat32 view pz le = Inr vz \<and> ns = [vx, vy, vz]
        else ns = []" by blast
  from read_intensity_InrD[OF s4] obtain ivs where
    ivs: "a4 = a3\<lparr>intensity := intensity a3 @ ivs\<rparr>"
      "if off (js ''intensity'') \<noteq> None then
          \<exists>p v. address (js ''intensity'') = Inr p \<and> getFloat32 view p le = Inr v \<and> ivs = [v]
        else ivs = []" by blast
  from read_label_InrD[OF s5] obtain ls where
    ls: "a' = a4\<lparr>label := label a4 @ ls\<rparr>"
      "if off (js ''label'') \<noteq> None then
          \<exists>p v. address (js ''label'') = Inr p \<and> getInt32 view p le = Inr v \<and> ls = [v]
        else ls = []" by blast
  let ?c = "\<lparr>position = ps, normal = ns, color = cs, intensity = ivs, label = ls\<rparr>"
  have "a' = arrays_append a ?c"
    unfolding ls(1) ivs(1) ns(1) cs(1) ps(1) by (simp add: arrays_append_def)
  moreover have "point_chunk cvt le off view address ?c"
    unfolding point_chunk_def pcd_arrays.select_convs
    by (intro conjI) (fact ps(2) cs(2) ns(2) ivs(2) ls(2))+
  ultimately show ?thesis by blast
qed

text \<open>
  The number of values one pass pushes onto each array, and the lengths of the arrays
  after \<open>n\<close> passes.
\<close>

definition chunk_lengths :: "(jsstring \<rightharpoonup> jsnum) \<Rightarrow> pcd_arrays \<Rightarrow> bool" where
  "chunk_lengths off c \<longleftrightarrow>
     length (position c) = (if off (js ''x'') \<noteq> None then 3 else 0)
   \<and> length (normal c) = (if off (js ''normal_x'') \<noteq> None then 3 else 0)
   \<and> length (color c) = (if off (js ''rgb'') \<noteq> None then 3 else 0)
   \<and> length (intensity c) = (if off (js ''intensity'') \<noteq> None then 1 else 0)
   \<and> length (label c) = (if off (js ''label'') \<noteq> None then 1 else 0)"

lemma set_color_length: "length (set_color cvt r g b) = 3"
  by (simp add: set_color_def split: prod.splits)

lemma point_chunk_lengths:
  assumes "point_chunk cvt le off view address c"
  shows "chunk_lengths off c"
proof -
  have 1: "length (position c) = (if off (js ''x'') \<noteq> None then 3 else 0)"
    using assms unfolding point_chunk_def by (cases "off (js ''x'') \<noteq> None") auto
  have 2: "length (normal c) = (if off (js ''normal_x'') \<noteq> None then 3 else 0)"
    using assms unfolding point_chunk_def by (cases "off (js ''normal_x'') \<noteq> None") auto
  have 3: "length (color c) = (if off (js ''rgb'') \<noteq> None then 3 else 0)"
    using assms unfolding point_chunk_def
    by (cases "off (js ''rgb'') \<noteq> None") (auto simp: set_color_length)
  have 4: "length (intensity c) = (if off (js ''intensity'') \<noteq> None then 1 else 0)"
    using assms unfolding point_chunk_def by (cases "off (js ''intensity'') \<noteq> None") auto
  have 5: "length (label c) = (if off (js ''label'') \<noteq> None then 1 else 0)"
    using assms unfolding point_chunk_def by (cases "off (js ''label'') \<noteq> None") auto
  show ?thesis unfolding chunk_lengths_def using 1 2 3 4 5 by blast
qed

lemma compressed_points_chunks:
  "compressed_points cvt le h view n i0 a = Inr a' \<Longrightarrow>
   \<exists>cs. length cs = n
     \<and> (\<forall>j < n. point_chunk cvt le (offset h) view (compressed_address h (i0 + j)) (cs ! j))
     \<and> a' = foldl arrays_append a cs"
proof (induction n arbitrary: i0 a)
  case 0
  then show ?case by simp
next
  case (Suc n)
  from Suc.prems obtain a1 where
    s: "read_point cvt le (offset h) view (compressed_address h i0) a = Inr a1"
    and r: "compressed_points cvt le h view n (i0 + 1) a1 = Inr a'"
    by (auto split: sum.splits)
  from read_point_InrD[OF s] obtain c where
    c: "a1 = arrays_append a c" "point_chunk cvt le (offset h) view (compressed_address h i0) c"
    by blast
  from Suc.IH[OF r] obtain cs where cs: "length cs = n"
    "\<forall>j < n. point_chunk cvt le (offset h) view (compressed_address h (i0 + 1 + j)) (cs ! j)"
    "a' = foldl arrays_append a1 cs" by blast
  have "\<forall>j < Suc n. point_chunk cvt le (offset h) view (compressed_address h (i0 + j)) ((c # cs) ! j)"
  proof (intro allI impI)
    fix j assume "j < Suc n"
    then show "point_chunk cvt le (offset h) view (compressed_address h (i0 + j)) ((c # cs) ! j)"
      using c(2) cs(2) by (cases j) auto
  qed
  moreover have "a' = foldl arrays_append a (c # cs)" using cs(3) c(1) by simp
  moreover have "length (c # cs) = Suc n" using cs(1) by simp
  ultimately show ?case by blast
qed

lemma binary_points_chunks:
  "binary_points cvt le h view n row a = Inr a' \<Longrightarrow>
   \<exists>cs. length cs = n \<and> (\<forall>c \<in> set cs. chunk_lengths (offset h) c)
     \<and> a' = foldl arrays_append a cs"
proof (induction n arbitrary: row a)
  case 0
  then show ?case by simp
next
  case (Suc n)
  from Suc.prems obtain a1 where
    s: "read_point cvt le (offset h) view (binary_address h row) a = Inr a1"
    and r: "binary_points cvt le h view n (js_add row (rowSize h)) a1 = Inr a'"
    by (auto split: sum.splits)
  from read_point_InrD[OF s] obtain c where
    c: "a1 = arrays_append a c" "point_chunk cvt le (offset h) view (binary_address h row) c"
    by blast
  from Suc.IH[OF r] obtain cs where cs: "length cs = n"
    "\<forall>c \<in> set cs. chunk_lengths (offset h) c"
    "a' = foldl arrays_append a1 cs" by blast
  have "\<forall>c' \<in> set (c # cs). chunk_lengths (offset h) c'"
    using point_chunk_lengths[OF c(2)] cs(2) by simp
  moreover have "a' = foldl arrays_append a (c # cs)" using cs(3) c(1) by simp
  moreover have "length (c # cs) = Suc n" using cs(1) by simp
  ultimately show ?case by blast
qed

lemma ascii_line_InrD:
  assumes "ascii_line cvt fb h l a = Inr a'"
  shows "\<exists>c. a' = arrays_append a c \<and> chunk_lengths (offset h) c"
proof -
  define line where "line = split_on 0x20 l"
  define a1 where "a1 = ascii_position h line a"
  from assms obtain a2 where
    s2: "ascii_rgb cvt fb h line a1 = Inr a2"
    and a': "a' = ascii_label h line (ascii_intensity h line (ascii_normal h line a2))"
    unfolding ascii_line_def Let_def line_def a1_def by (auto dest!: err_bind_InrD)
  define a3 where "a3 = ascii_normal h line a2"
  define a4 where "a4 = ascii_intensity h line a3"
  obtain ps where ps: "a1 = a\<lparr>position := position a @ ps\<rparr>"
    "length ps = (if offset h (js ''x'') \<noteq> None then 3 else 0)"
    unfolding a1_def by (cases "offset h (js ''x'') \<noteq> None") (auto simp: ascii_position_def)
  obtain cs where cs: "a2 = a1\<lparr>color := color a1 @ cs\<rparr>"
    "length cs = (if offset h (js ''rgb'') \<noteq> None then 3 else 0)"
  proof (cases "offset h (js ''rgb'') \<noteq> None")
    case True
    then obtain ts where "type h = Some ts" using s2 by (cases "type h") (auto simp: ascii_rgb_def)
    then show ?thesis using s2 True that
      by (auto simp: ascii_rgb_def Let_def set_color_length)
  next
    case False
    then have "a2 = a1\<lparr>color := color a1 @ []\<rparr>" using s2 by (simp add: ascii_rgb_def)
    then show ?thesis using False that by auto
  qed
  obtain ns where ns: "a3 = a2\<lparr>normal := normal a2 @ ns\<rparr>"
    "length ns = (if offset h (js ''normal_x'') \<noteq> None then 3 else 0)"
    unfolding a3_def by (cases "offset h (js ''normal_x'') \<noteq> None") (auto simp: ascii_normal_def)
  obtain ivs where ivs: "a4 = a3\<lparr>intensity := intensity a3 @ ivs\<rparr>"
    "length ivs = (if offset h (js ''intensity'') \<noteq> None then 1 else 0)"
    unfolding a4_def
    by (cases "offset h (js ''intensity'') \<noteq> None") (auto simp: ascii_intensity_def)
  have a'': "a' = ascii_label h line a4" unfolding a' a4_def a3_def ..
  obtain ls where ls: "a' = a4\<lparr>label := label a4 @ ls\<rparr>"
    "length ls = (if offset h (js ''label'') \<noteq> None then 1 else 0)"
    unfolding a'' by (cases "offset h (js ''label'') \<noteq> None") (auto simp: ascii_label_def)
  let ?c = "\<lparr>position = ps, normal = ns, color = cs, intensity = ivs, label = ls\<rparr>"
  have "a' = arrays_append a ?c"
    unfolding ls(1) ivs(1) ns(1) cs(1) ps(1) by (simp add: arrays_append_def)
  moreover have "chunk_lengths (offset h) ?c"
    unfolding chunk_lengths_def pcd_arrays.select_convs
    by (intro conjI) (fact ps(2) ns(2) cs(2) ivs(2) ls(2))+
  ultimately show ?thesis by blast
qed

lemma ascii_lines_chunks:
  "ascii_lines cvt fb h ls a = Inr a' \<Longrightarrow>
   \<exists>cs. length cs = length (filter (\<lambda>l. l \<noteq> []) ls)
     \<and> (\<forall>c \<in> set cs. chunk_lengths (offset h) c)
     \<and> a' = foldl arrays_append a cs"
proof (induction ls arbitrary: a)
  case Nil
  then show ?case by simp
next
  case (Cons l ls)
  show ?case
  proof (cases "l = []")
    case True
    then have "ascii_lines cvt fb h ls a = Inr a'" using Cons.prems by simp
    from Cons.IH[OF this] show ?thesis using True by simp
  next
    case False
    then obtain a1 where s: "ascii_line cvt fb h l a = Inr a1"
      and r: "ascii_lines cvt fb h ls a1 = Inr a'"
      using Cons.prems by (auto split: sum.splits)
    from ascii_line_InrD[OF s] obtain c where c: "a1 = arrays_append a c"
      "chunk_lengths (offset h) c" by blast
    from Cons.IH[OF r] obtain cs where cs: "length cs = length (filter (\<lambda>l. l \<noteq> []) ls)"
      "\<forall>c \<in> set cs. chunk_lengths (offset h) c" "a' = foldl arrays_append a1 cs" by blast
    have "length (c # cs) = length (filter (\<lambda>l. l \<noteq> []) (l # ls))" using cs(1) False by simp
    moreover have "\<forall>c' \<in> set (c # cs). chunk_lengths (offset h) c'" using c(2) cs(2) by simp
    moreover have "a' = foldl arrays_append a (c # cs)" using cs(3) c(1) by simp
    ultimately show ?thesis by blast
  qed
qed

lemma length_concat_uniform:
  "\<forall>c \<in> set cs. length (f c) = w \<Longrightarrow> length (concat (map f cs)) = w * length cs"
  by (induction cs) simp_all

text \<open>
  The lengths of the five arrays after \<open>n\<close> passes.
\<close>

definition point_counts :: "(jsstring \<rightharpoonup> jsnum) \<Rightarrow> pcd_arrays \<Rightarrow> nat \<Rightarrow> bool" where
  "point_counts off a n \<longleftrightarrow>
     length (position a) = (if off (js ''x'') \<noteq> None then 3 * n else 0)
   \<and> length (normal a) = (if off (js ''normal_x'') \<noteq> None then 3 * n else 0)
   \<and> length (color a) = (if off (js ''rgb'') \<noteq> None then 3 * n else 0)
   \<and> length (intensity a) = (if off (js ''intensity'') \<noteq> None then n else 0)
   \<and> length (label a) = (if off (js ''label'') \<noteq> None then n else 0)"

lemma chunks_point_counts:
  assumes "\<forall>c \<in> set cs. chunk_lengths off c"
  shows "point_counts off (foldl arrays_append no_arrays cs) (length cs)"
proof -
  have 1: "\<forall>c \<in> set cs. length (position c) = (if off (js ''x'') \<noteq> None then 3 else 0)"
    and 2: "\<forall>c \<in> set cs. length (normal c) = (if off (js ''normal_x'') \<noteq> None then 3 else 0)"
    and 3: "\<forall>c \<in> set cs. length (color c) = (if off (js ''rgb'') \<noteq> None then 3 else 0)"
    and 4: "\<forall>c \<in> set cs. length (intensity c) = (if off (js ''intensity'') \<noteq> None then 1 else 0)"
    and 5: "\<forall>c \<in> set cs. length (label c) = (if off (js ''label'') \<noteq> None then 1 else 0)"
    using assms unfolding chunk_lengths_def by blast+
  show ?thesis
    unfolding point_counts_def foldl_arrays_append
    using length_concat_uniform[OF 1] length_concat_uniform[OF 2] length_concat_uniform[OF 3]
      length_concat_uniform[OF 4] length_concat_uniform[OF 5]
    by (simp add: no_arrays_def)
qed

lemma point_counts_zero: "point_counts off no_arrays 0"
  by (simp add: point_counts_def no_arrays_def)

text \<open>
  The number of passes that push values: for \<open>ascii\<close> the non-empty lines of the
  body (the loop skips every empty line and never reads \<open>PCDheader.points\<close>), for
  the two binary encodings the bound \<open>PCDheader.points\<close> of the \<open>for\<close> loop, and
  none for any other value of \<open>DATA\<close>.
\<close>

definition decoded_points :: "pcd_header \<Rightarrow> jsstring \<Rightarrow> nat" where
  "decoded_points h textData =
     (if data h = js ''ascii'' then
        length (filter (\<lambda>l. l \<noteq> []) (split_on 0x0A (js_slice (headerLen h) None textData)))
      else if data h = js ''binary_compressed'' \<or> data h = js ''binary'' then
        loop_count (points h)
      else 0)"

lemma offset_defined_iff:
  assumes "parseHeader t = Inr h"
  shows "offset h f \<noteq> None \<longleftrightarrow> f \<in> set (fields' h) \<and> f \<noteq> js ''__proto__''"
proof -
  note dm = offset_loop_dom[OF parseHeader_InrD(9)[OF assms]]
  show ?thesis using dm by (auto simp: dom_def)
qed

lemma loop_count_pos: "0 < loop_count v \<Longrightarrow> v = Num (int (loop_count v))"
  by (cases v) (simp_all add: loop_count_def)

lemma encodings_distinct:
  "js ''ascii'' \<noteq> js ''binary_compressed''" "js ''ascii'' \<noteq> js ''binary''"
  "js ''binary_compressed'' \<noteq> js ''binary''"
  by (simp_all add: js_def)

lemma parse_binary_compressed_chunks:
  assumes "parse_binary_compressed cvt le h dat a = Inr a'"
  shows "\<exists>cs. length cs = loop_count (points h)
     \<and> (\<forall>c \<in> set cs. chunk_lengths (offset h) c) \<and> a' = foldl arrays_append a cs"
proof -
  from assms obtain view where
    "compressed_points cvt le h view (loop_count (points h)) 0 a = Inr a'"
    unfolding parse_binary_compressed_def Let_def by (auto split: if_splits sum.splits)
  from compressed_points_chunks[OF this] obtain cs where cs: "length cs = loop_count (points h)"
    "\<forall>j < loop_count (points h).
        point_chunk cvt le (offset h) view (compressed_address h (0 + j)) (cs ! j)"
    "a' = foldl arrays_append a cs" by blast
  have "\<forall>c \<in> set cs. chunk_lengths (offset h) c"
    using cs(1,2) point_chunk_lengths by (metis in_set_conv_nth)
  then show ?thesis using cs(1,3) by blast
qed

lemma parse_binary_chunks:
  assumes "parse_binary cvt le h dat a = Inr a'"
  shows "\<exists>cs. length cs = loop_count (points h)
     \<and> (\<forall>c \<in> set cs. chunk_lengths (offset h) c) \<and> a' = foldl arrays_append a cs"
proof -
  from assms have
    "binary_points cvt le h (drop (nat (headerLen h)) dat) (loop_count (points h)) (Num 0) a = Inr a'"
    unfolding parse_binary_def by (auto split: if_splits)
  from binary_points_chunks[OF this] show ?thesis .
qed

lemma parse_arrays:
  assumes "parse cvt fb le dat = Inr g"
  shows "\<exists>h a. parseHeader (TextDecoder_decode dat) = Inr h \<and> g = build_geometry a
     \<and> point_counts (offset h) a (decoded_points h (TextDecoder_decode dat))"
proof -
  let ?t = "TextDecoder_decode dat"
  from assms obtain h where h: "parseHeader ?t = Inr h"
    unfolding parse_def Let_def by (auto split: sum.splits)
  let ?n = "decoded_points h ?t"
  from assms h obtain a1 a2 a3 where
    s1: "(if data h = js ''ascii'' then
            ascii_lines cvt fb h (split_on 0x0A (js_slice (headerLen h) None ?t)) no_arrays
          else Inr no_arrays) = Inr a1"
    and s2: "(if data h = js ''binary_compressed'' then parse_binary_compressed cvt le h dat a1
          else Inr a1) = Inr a2"
    and s3: "(if data h = js ''binary'' then parse_binary cvt le h dat a2 else Inr a2) = Inr a3"
    and g: "g = build_geometry a3"
    unfolding parse_def Let_def by (auto split: sum.splits)
  have "point_counts (offset h) a3 ?n"
  proof -
    consider (ascii) "data h = js ''ascii''" | (compressed) "data h = js ''binary_compressed''"
      | (binary) "data h = js ''binary''"
      | (other) "data h \<noteq> js ''ascii''" "data h \<noteq> js ''binary_compressed''"
          "data h \<noteq> js ''binary''"
      by blast
    then show ?thesis
    proof cases
      case ascii
      then have e: "a2 = a1" "a3 = a2" using s2 s3 encodings_distinct by simp_all
      from s1 ascii have
        "ascii_lines cvt fb h (split_on 0x0A (js_slice (headerLen h) None ?t)) no_arrays = Inr a1"
        by simp
      from ascii_lines_chunks[OF this] obtain cs where
        cs: "length cs = length (filter (\<lambda>l. l \<noteq> []) (split_on 0x0A (js_slice (headerLen h) None ?t)))"
        "\<forall>c \<in> set cs. chunk_lengths (offset h) c" "a1 = foldl arrays_append no_arrays cs"
        by blast
      have "?n = length cs" using ascii cs(1) by (simp add: decoded_points_def)
      then show ?thesis using chunks_point_counts[OF cs(2)] cs(3) e by simp
    next
      case compressed
      then have e: "a1 = no_arrays" "a3 = a2" using s1 s3 encodings_distinct by simp_all
      from s2 compressed e have "parse_binary_compressed cvt le h dat no_arrays = Inr a2" by simp
      from parse_binary_compressed_chunks[OF this] obtain cs where
        cs: "length cs = loop_count (points h)"
        "\<forall>c \<in> set cs. chunk_lengths (offset h) c" "a2 = foldl arrays_append no_arrays cs"
        by blast
      have "?n = length cs" using compressed cs(1) encodings_distinct
        by (simp add: decoded_points_def)
      then show ?thesis using chunks_point_counts[OF cs(2)] cs(3) e by simp
    next
      case binary
      then have e: "a1 = no_arrays" "a2 = a1" using s1 s2 encodings_distinct by simp_all
      from s3 binary e have "parse_binary cvt le h dat no_arrays = Inr a3" by simp
      from parse_binary_chunks[OF this] obtain cs where
        cs: "length cs = loop_count (points h)"
        "\<forall>c \<in> set cs. chunk_lengths (offset h) c" "a3 = foldl arrays_append no_arrays cs"
        by blast
      have "?n = length cs" using binary cs(1) encodings_distinct
        by (simp add: decoded_points_def)
      then show ?thesis using chunks_point_counts[OF cs(2)] cs(3) by simp
    next
      case other
      then have "a3 = no_arrays" "?n = 0" using s1 s2 s3 by (simp_all add: decoded_points_def)
      then show ?thesis using point_counts_zero by simp
    qed
  qed
  then show ?thesis using h g by blast
qed

lemma attribute_Some_iff: "attribute ys = Some xs \<longleftrightarrow> xs = ys \<and> ys \<noteq> []"
  by (auto simp: attribute_def)

lemma attribute_None_iff: "attribute ys \<noteq> None \<longleftrightarrow> 0 < length ys"
  by (auto simp: attribute_def)

text \<open>
  Claim C8, as amended. When \<open>parse\<close> returns, every attribute of the result that is
  present is non-empty, belongs to a group whose first field (\<open>x\<close>, \<open>normal_x\<close>,
  \<open>rgb\<close>, \<open>intensity\<close>, \<open>label\<close>) is declared, and has length \<open>3 * n\<close>
  (positions, normals, colours) or \<open>n\<close> (intensity, label), where \<open>n\<close> is the number of
  decoded points: the header's point count for the two binary encodings, the number of
  non-empty body lines for \<open>ascii\<close>. When the fields \<open>x\<close>, \<open>y\<close> and \<open>z\<close> are all
  declared, positions are present exactly when \<open>n\<close> is positive, and likewise for the
  other groups.
\<close>

theorem output_arrays:
  assumes "parse convertSRGBToLinear float32_bits littleEndian dat = Inr g"
  shows "\<exists>h n. parseHeader (TextDecoder_decode dat) = Inr h
     \<and> n = decoded_points h (TextDecoder_decode dat)
     \<and> (data h \<noteq> js ''ascii'' \<and> 0 < n \<longrightarrow> points h = Num (int n))
     \<and> (\<forall>xs. position_attribute g = Some xs \<longrightarrow>
           length xs = 3 * n \<and> xs \<noteq> [] \<and> js ''x'' \<in> set (fields' h))
     \<and> (\<forall>xs. normal_attribute g = Some xs \<longrightarrow>
           length xs = 3 * n \<and> xs \<noteq> [] \<and> js ''normal_x'' \<in> set (fields' h))
     \<and> (\<forall>xs. color_attribute g = Some xs \<longrightarrow>
           length xs = 3 * n \<and> xs \<noteq> [] \<and> js ''rgb'' \<in> set (fields' h))
     \<and> (\<forall>xs. intensity_attribute g = Some xs \<longrightarrow>
           length xs = n \<and> xs \<noteq> [] \<and> js ''intensity'' \<in> set (fields' h))
     \<and> (\<forall>xs. label_attribute g = Some xs \<longrightarrow>
           length xs = n \<and> xs \<noteq> [] \<and> js ''label'' \<in> set (fields' h))
     \<and> (js ''x'' \<in> set (fields' h) \<and> js ''y'' \<in> set (fields' h) \<and> js ''z'' \<in> set (fields' h) \<longrightarrow>
           (position_attribute g \<noteq> None \<longleftrightarrow> 0 < n))
     \<and> (js ''normal_x'' \<in> set (fields' h) \<and> js ''normal_y'' \<in> set (fields' h)
          \<and> js ''normal_z'' \<in> set (fields' h) \<longrightarrow>
           (normal_attribute g \<noteq> None \<longleftrightarrow> 0 < n))
     \<and> (js ''rgb'' \<in> set (fields' h) \<longrightarrow> (color_attribute g \<noteq> None \<longleftrightarrow> 0 < n))
     \<and> (js ''intensity'' \<in> set (fields' h) \<longrightarrow> (intensity_attribute g \<noteq> None \<longleftrightarrow> 0 < n))
     \<and> (js ''label'' \<in> set (fields' h) \<longrightarrow> (label_attribute g \<noteq> None \<longleftrightarrow> 0 < n))"
proof -
  let ?t = "TextDecoder_decode dat"
  from parse_arrays[OF assms] obtain h a where h: "parseHeader ?t = Inr h"
    and g: "g = build_geometry a"
    and pc: "point_counts (offset h) a (decoded_points h ?t)" by blast
  define n where "n = decoded_points h ?t"
  note d = offset_defined_iff[OF h]
  have np: "js ''x'' \<noteq> js ''__proto__''" "js ''normal_x'' \<noteq> js ''__proto__''"
    "js ''rgb'' \<noteq> js ''__proto__''" "js ''intensity'' \<noteq> js ''__proto__''"
    "js ''label'' \<noteq> js ''__proto__''"
    by (simp_all add: js_def)
  have len: "length (position a) = (if js ''x'' \<in> set (fields' h) then 3 * n else 0)"
    "length (normal a) = (if js ''normal_x'' \<in> set (fields' h) then 3 * n else 0)"
    "length (color a) = (if js ''rgb'' \<in> set (fields' h) then 3 * n else 0)"
    "length (intensity a) = (if js ''intensity'' \<in> set (fields' h) then n else 0)"
    "length (label a) = (if js ''label'' \<in> set (fields' h) then n else 0)"
    using pc np unfolding point_counts_def n_def[symmetric] d by simp_all
  have pts: "data h \<noteq> js ''ascii'' \<and> 0 < n \<longrightarrow> points h = Num (int n)"
    unfolding n_def decoded_points_def using loop_count_pos[of "points h"]
    by (auto split: if_splits)
  have att: "position_attribute g = attribute (position a)"
    "normal_attribute g = attribute (normal a)" "color_attribute g = attribute (color a)"
    "intensity_attribute g = attribute (intensity a)" "label_attribute g = attribute (label a)"
    unfolding g by (simp_all add: build_geometry_def)
  have 1: "\<forall>xs. position_attribute g = Some xs \<longrightarrow>
           length xs = 3 * n \<and> xs \<noteq> [] \<and> js ''x'' \<in> set (fields' h)"
    unfolding att attribute_Some_iff using len(1) by (auto split: if_splits)
  have 2: "\<forall>xs. normal_attribute g = Some xs \<longrightarrow>
           length xs = 3 * n \<and> xs \<noteq> [] \<and> js ''normal_x'' \<in> set (fields' h)"
    unfolding att attribute_Some_iff using len(2) by (auto split: if_splits)
  have 3: "\<forall>xs. color_attribute g = Some xs \<longrightarrow>
           length xs = 3 * n \<and> xs \<noteq> [] \<and> js ''rgb'' \<in> set (fields' h)"
    unfolding att attribute_Some_iff using len(3) by (auto split: if_splits)
  have 4: "\<forall>xs. intensity_attribute g = Some xs \<longrightarrow>
           length xs = n \<and> xs \<noteq> [] \<and> js ''intensity'' \<in> set (fields' h)"
    unfolding att attribute_Some_iff using len(4) by (auto split: if_splits)
  have 5: "\<forall>xs. label_attribute g = Some xs \<longrightarrow>
           length xs = n \<and> xs \<noteq> [] \<and> js ''label'' \<in> set (fields' h)"
    unfolding att attribute_Some_iff using len(5) by (auto split: if_splits)
  have 6: "js ''x'' \<in> set (fields' h) \<and> js ''y'' \<in> set (fields' h) \<and> js ''z'' \<in> set (fields' h) \<longrightarrow>
           (position_attribute g \<noteq> None \<longleftrightarrow> 0 < n)"
    unfolding att attribute_None_iff using len(1) by auto
  have 7: "js ''normal_x'' \<in> set (fields' h) \<and> js ''normal_y'' \<in> set (fields' h)
          \<and> js ''normal_z'' \<in> set (fields' h) \<longrightarrow>
           (normal_attribute g \<noteq> None \<longleftrightarrow> 0 < n)"
    unfolding att attribute_None_iff using len(2) by auto
  have 8: "js ''rgb'' \<in> set (fields' h) \<longrightarrow> (color_attribute g \<noteq> None \<longleftrightarrow> 0 < n)"
    unfolding att attribute_None_iff using len(3) by auto
  have 9: "js ''intensity'' \<in> set (fields' h) \<longrightarrow> (intensity_attribute g \<noteq> None \<longleftrightarrow> 0 < n)"
    unfolding att attribute_None_iff using len(4) by auto
  have 10: "js ''label'' \<in> set (fields' h) \<longrightarrow> (label_attribute g \<noteq> None \<longleftrightarrow> 0 < n)"
    unfolding att attribute_None_iff using len(5) by auto
  show ?thesis
    apply (rule exI[of _ h], rule exI[of _ n])
    using h n_def pts 1 2 3 4 5 6 7 8 9 10 by blast
qed

section \<open>The layout of the decompressed buffer\<close>

text \<open>
  The two sizes in front of the compressed payload, read as little-endian unsigned 32-bit
  integers at \<open>headerLen\<close> and \<open>headerLen + 4\<close>, and the payload itself, the
  \<open>compressedSize\<close> bytes from \<open>headerLen + 8\<close> on.
\<close>

definition compressed_size :: "pcd_header \<Rightarrow> byte list \<Rightarrow> nat" where
  "compressed_size h dat = unat (word32_of_bytes True (take 4 (drop (nat (headerLen h)) dat)))"

definition decompressed_size :: "pcd_header \<Rightarrow> byte list \<Rightarrow> nat" where
  "decompressed_size h dat =
     unat (word32_of_bytes True (take 4 (drop (nat (headerLen h) + 4) dat)))"

definition compressed_payload :: "pcd_header \<Rightarrow> byte list \<Rightarrow> byte list" where
  "compressed_payload h dat = take (compressed_size h dat) (drop (nat (headerLen h) + 8) dat)"

text \<open>
  The argument of the DataView accessors in the \<open>binary_compressed\<close> loop:
  \<open>( PCDheader.points * offset.f ) + PCDheader.size[ fIndex ] * i\<close>, in JavaScript
  arithmetic.
\<close>

definition column_address :: "pcd_header \<Rightarrow> nat \<Rightarrow> jsstring \<Rightarrow> jsnum" where
  "column_address h i f =
     js_add (js_mul (points h) (undefined_to_number (offset h f)))
       (js_mul (undefined_to_number (arr_get_int (sizes h) (indexOf (fields' h) f)))
          (Num (int i)))"

lemma column_address_Num:
  assumes "points h = Num n" and "offset h f = Some (Num fieldOffset)"
    and "arr_get_int (sizes h) (indexOf (fields' h) f) = Some (Num s)"
  shows "column_address h i f = Num (n * fieldOffset + s * int i)"
  using assms by (simp add: column_address_def undefined_to_number_def)

lemma compressed_address_InrD:
  "compressed_address h i f = Inr p \<Longrightarrow> p = column_address h i f"
  by (auto simp: compressed_address_def column_address_def sizes_def split: option.splits)

lemma exec_DATA_SomeD: "exec_DATA u = Some m \<Longrightarrow> \<exists>k. match_DATA (drop k u) = Some m"
proof (induction u)
  case Nil
  then show ?case by simp
next
  case (Cons c cs)
  show ?case
  proof (cases "match_DATA (c # cs)")
    case None
    then have "exec_DATA cs = Some m" using Cons.prems by simp
    then obtain k where "match_DATA (drop k cs) = Some m" using Cons.IH by blast
    then have "match_DATA (drop (Suc k) (c # cs)) = Some m" by simp
    then show ?thesis by blast
  next
    case (Some m')
    then have "match_DATA (drop 0 (c # cs)) = Some m" using Cons.prems by simp
    then show ?thesis by blast
  qed
qed

lemma exec_DATA_length:
  assumes "exec_DATA u = Some (m0, m1)"
  shows "7 \<le> length u"
proof -
  from exec_DATA_SomeD[OF assms] obtain k where k: "match_DATA (drop k u) = Some (m0, m1)"
    by blast
  from match_DATA_SomeD[OF k] obtain nl kw sp ws rest where
    "drop k u = nl # kw @ sp # m1 @ ws # rest" "length kw = 4" by blast
  then have "7 \<le> length (drop k u)" by simp
  then show ?thesis by simp
qed

lemma js_slice_length_neg: "start < 0 \<Longrightarrow> length (js_slice start None t) \<le> nat (- start)"
  by (auto simp: js_slice_def Let_def)

lemma headerLen_pos:
  assumes "parseHeader t = Inr h"
  shows "0 < headerLen h"
proof -
  from parseHeader_InrD(1)[OF assms] obtain m0 where
    ex: "exec_DATA (js_slice (search_DATA t - 1) None t) = Some (m0, data h)"
    and hl: "headerLen h = int (length m0) + search_DATA t" by blast
  have "7 \<le> length (js_slice (search_DATA t - 1) None t)" using ex by (rule exec_DATA_length)
  moreover have "search_DATA t - 1 < 0 \<Longrightarrow>
      length (js_slice (search_DATA t - 1) None t) \<le> nat (- (search_DATA t - 1))"
    by (rule js_slice_length_neg)
  moreover have "search_DATA t \<ge> -1" by (rule search_DATA_nonneg_iff)
  ultimately have "\<not> search_DATA t - 1 < 0" by linarith
  then show ?thesis using hl by linarith
qed

lemma nth_concat_uniform:
  "\<forall>c \<in> set xs. length c = w \<Longrightarrow> i < length xs \<Longrightarrow> k < w \<Longrightarrow>
   concat xs ! (w * i + k) = xs ! i ! k"
proof (induction xs arbitrary: i)
  case Nil
  then show ?case by simp
next
  case (Cons x xs)
  show ?case
  proof (cases i)
    case 0
    then show ?thesis using Cons.prems by (simp add: nth_append)
  next
    case (Suc j)
    have "concat xs ! (w * j + k) = xs ! j ! k" using Cons.prems Suc by (intro Cons.IH) auto
    moreover have "w * i + k = length x + (w * j + k)" using Cons.prems(1) Suc by simp
    ultimately show ?thesis using Suc by (simp add: nth_append)
  qed
qed

lemma parse_compressed_chunks:
  assumes "parseHeader (TextDecoder_decode dat) = Inr h"
    and "data h = js ''binary_compressed''"
    and "parse cvt fb le dat = Inr g"
  shows "\<exists>view cs. decompressLZF (compressed_payload h dat) (decompressed_size h dat) = Inr view
     \<and> length cs = loop_count (points h)
     \<and> (\<forall>j < loop_count (points h).
           point_chunk cvt le (offset h) view (compressed_address h j) (cs ! j))
     \<and> g = build_geometry (foldl arrays_append no_arrays cs)"
proof -
  let ?t = "TextDecoder_decode dat"
  have na: "data h \<noteq> js ''ascii''" "data h \<noteq> js ''binary''"
    using assms(2) encodings_distinct by simp_all
  from assms(3) obtain a where
    pc: "parse_binary_compressed cvt le h dat no_arrays = Inr a" and g: "g = build_geometry a"
    unfolding parse_def Let_def assms(1) using assms(2) na
    by (auto split: sum.splits)
  have hl: "0 < headerLen h" using assms(1) by (rule headerLen_pos)
  let ?k = "nat (headerLen h)"
  have sl: "js_slice (headerLen h) (Some (headerLen h + 8)) dat = take 8 (drop ?k dat)"
  proof -
    have "nat (min (headerLen h + 8) (int (length dat)) - min (headerLen h) (int (length dat)))
        = min 8 (length dat - ?k)" using hl by (auto simp: min_def)
    moreover have "drop (nat (min (headerLen h) (int (length dat)))) dat = drop ?k dat"
      using hl by (auto simp: min_def)
    ultimately show ?thesis using hl by (simp add: js_slice_def Let_def min_def take_drop)
  qed
  from pc have len: "length (take 8 (drop ?k dat)) = 8"
    unfolding parse_binary_compressed_def Let_def sl by (auto split: if_splits)
  have c: "take 4 (take 8 (drop ?k dat)) = take 4 (drop ?k dat)"
    "drop 4 (take 8 (drop ?k dat)) = take 4 (drop (?k + 4) dat)"
    by (simp_all add: drop_take add.commute)
  have k8: "nat (headerLen h + 8) = ?k + 8" using hl by simp
  from pc obtain view where
    dz: "decompressLZF (compressed_payload h dat) (decompressed_size h dat) = Inr view"
    and cp: "compressed_points cvt le h view (loop_count (points h)) 0 no_arrays = Inr a"
    unfolding parse_binary_compressed_def Let_def sl c k8
      compressed_payload_def compressed_size_def decompressed_size_def
    by (auto split: if_splits sum.splits)
  from compressed_points_chunks[OF cp] obtain cs where cs: "length cs = loop_count (points h)"
    "\<forall>j < loop_count (points h).
        point_chunk cvt le (offset h) view (compressed_address h (0 + j)) (cs ! j)"
    "a = foldl arrays_append no_arrays cs" by blast
  show ?thesis using dz cs g by auto
qed

lemma concat_empty_chunks: "\<forall>j < length cs. f (cs ! j) = [] \<Longrightarrow> concat (map f cs) = []"
  by (auto simp: in_set_conv_nth)

lemma chunk_group3:
  assumes "\<forall>j < n. (if P then
              \<exists>px py pz vx vy vz. addr j fa = Inr px \<and> addr j fb = Inr py \<and> addr j fc = Inr pz
                \<and> G px = Inr vx \<and> G py = Inr vy \<and> G pz = Inr vz \<and> sel (cs ! j) = [vx, vy, vz]
            else sel (cs ! j) = [])"
    and "length cs = n" and "xs = concat (map sel cs)" and "xs \<noteq> []" and "i < n"
    and "\<And>j f p. addr j f = Inr p \<Longrightarrow> p = A j f"
  shows "G (A i fa) = Inr (xs ! (3 * i)) \<and> G (A i fb) = Inr (xs ! (3 * i + 1))
       \<and> G (A i fc) = Inr (xs ! (3 * i + 2))"
proof -
  have P: P
  proof (rule ccontr)
    assume "\<not> P"
    then have "\<forall>j < length cs. sel (cs ! j) = []" using assms(1,2) by simp
    then have "xs = []" unfolding assms(3) by (rule concat_empty_chunks)
    then show False using assms(4) by simp
  qed
  have all: "\<forall>j < n. \<exists>px py pz vx vy vz. addr j fa = Inr px \<and> addr j fb = Inr py
                \<and> addr j fc = Inr pz \<and> G px = Inr vx \<and> G py = Inr vy \<and> G pz = Inr vz
                \<and> sel (cs ! j) = [vx, vy, vz]"
    using assms(1) P by simp
  have "\<forall>j < n. length (sel (cs ! j)) = 3"
  proof (intro allI impI)
    fix j assume "j < n"
    with all obtain vx vy vz where "sel (cs ! j) = [vx, vy, vz]" by blast
    then show "length (sel (cs ! j)) = 3" by simp
  qed
  then have w: "\<forall>c \<in> set (map sel cs). length c = 3"
    using assms(2) by (auto simp: in_set_conv_nth)
  have nth: "\<And>k. k < 3 \<Longrightarrow> xs ! (3 * i + k) = sel (cs ! i) ! k"
    unfolding assms(3) using nth_concat_uniform[OF w, of i] assms(2,5) by simp
  from all assms(5) obtain px py pz vx vy vz where
    r: "addr i fa = Inr px" "addr i fb = Inr py" "addr i fc = Inr pz"
      "G px = Inr vx" "G py = Inr vy" "G pz = Inr vz" "sel (cs ! i) = [vx, vy, vz]"
    by blast
  have p: "px = A i fa" "py = A i fb" "pz = A i fc" using r(1,2,3) assms(6) by blast+
  have "xs ! (3 * i) = vx" "xs ! (3 * i + 1) = vy" "xs ! (3 * i + 2) = vz"
    using nth[of 0] nth[of 1] nth[of 2] r(7) by simp_all
  then show ?thesis using r(4,5,6) p by simp
qed

lemma chunk_group1:
  assumes "\<forall>j < n. (if P then
              \<exists>p v. addr j fa = Inr p \<and> G p = Inr v \<and> sel (cs ! j) = [v]
            else sel (cs ! j) = [])"
    and "length cs = n" and "xs = concat (map sel cs)" and "xs \<noteq> []" and "i < n"
    and "\<And>j f p. addr j f = Inr p \<Longrightarrow> p = A j f"
  shows "G (A i fa) = Inr (xs ! i)"
proof -
  have P: P
  proof (rule ccontr)
    assume "\<not> P"
    then have "\<forall>j < length cs. sel (cs ! j) = []" using assms(1,2) by simp
    then have "xs = []" unfolding assms(3) by (rule concat_empty_chunks)
    then show False using assms(4) by simp
  qed
  have all: "\<forall>j < n. \<exists>p v. addr j fa = Inr p \<and> G p = Inr v \<and> sel (cs ! j) = [v]"
    using assms(1) P by simp
  have "\<forall>j < n. length (sel (cs ! j)) = 1"
  proof (intro allI impI)
    fix j assume "j < n"
    with all obtain v where "sel (cs ! j) = [v]" by blast
    then show "length (sel (cs ! j)) = 1" by simp
  qed
  then have w: "\<forall>c \<in> set (map sel cs). length c = 1"
    using assms(2) by (auto simp: in_set_conv_nth)
  have nth: "xs ! i = sel (cs ! i) ! 0"
    unfolding assms(3) using nth_concat_uniform[OF w, of i 0] assms(2,5) by simp
  from all assms(5) obtain p v where
    r: "addr i fa = Inr p" "G p = Inr v" "sel (cs ! i) = [v]" by blast
  have "p = A i fa" using r(1) assms(6) by blast
  then show ?thesis using nth r(2,3) by simp
qed

lemma chunk_color:
  assumes "\<forall>j < n. (if P then
              \<exists>p r g b. addr j fa = Inr p \<and> G (js_add p (Num 2)) = Inr r
                \<and> G (js_add p (Num 1)) = Inr g \<and> G (js_add p (Num 0)) = Inr b
                \<and> sel (cs ! j) = set_color cvt r g b
            else sel (cs ! j) = [])"
    and "length cs = n" and "xs = concat (map sel cs)" and "xs \<noteq> []" and "i < n"
    and "\<And>j f p. addr j f = Inr p \<Longrightarrow> p = A j f"
  shows "\<exists>r g b. G (js_add (A i fa) (Num 2)) = Inr r \<and> G (js_add (A i fa) (Num 1)) = Inr g
       \<and> G (js_add (A i fa) (Num 0)) = Inr b
       \<and> [xs ! (3 * i), xs ! (3 * i + 1), xs ! (3 * i + 2)] = set_color cvt r g b"
proof -
  have P: P
  proof (rule ccontr)
    assume "\<not> P"
    then have "\<forall>j < length cs. sel (cs ! j) = []" using assms(1,2) by simp
    then have "xs = []" unfolding assms(3) by (rule concat_empty_chunks)
    then show False using assms(4) by simp
  qed
  have all: "\<forall>j < n. \<exists>p r g b. addr j fa = Inr p \<and> G (js_add p (Num 2)) = Inr r
                \<and> G (js_add p (Num 1)) = Inr g \<and> G (js_add p (Num 0)) = Inr b
                \<and> sel (cs ! j) = set_color cvt r g b"
    using assms(1) P by simp
  have "\<forall>j < n. length (sel (cs ! j)) = 3"
  proof (intro allI impI)
    fix j assume "j < n"
    with all obtain r g b where "sel (cs ! j) = set_color cvt r g b" by blast
    then show "length (sel (cs ! j)) = 3" by (simp add: set_color_length)
  qed
  then have w: "\<forall>c \<in> set (map sel cs). length c = 3"
    using assms(2) by (auto simp: in_set_conv_nth)
  have nth: "\<And>k. k < 3 \<Longrightarrow> xs ! (3 * i + k) = sel (cs ! i) ! k"
    unfolding assms(3) using nth_concat_uniform[OF w, of i] assms(2,5) by simp
  from all assms(5) obtain p r g b where
    r: "addr i fa = Inr p" "G (js_add p (Num 2)) = Inr r" "G (js_add p (Num 1)) = Inr g"
      "G (js_add p (Num 0)) = Inr b" "sel (cs ! i) = set_color cvt r g b"
    by blast
  have p: "p = A i fa" using r(1) assms(6) by blast
  obtain c1 c2 c3 where c: "set_color cvt r g b = [c1, c2, c3]"
    using set_color_length[of cvt r g b] by (auto simp: length_Suc_conv numeral_3_eq_3)
  have "[xs ! (3 * i), xs ! (3 * i + 1), xs ! (3 * i + 2)] = set_color cvt r g b"
    using nth[of 0] nth[of 1] nth[of 2] r(5) c by simp
  then show ?thesis using r(2,3,4) p by blast
qed

lemma compressed_reads:
  assumes "parseHeader (TextDecoder_decode dat) = Inr h"
    and "data h = js ''binary_compressed''"
    and "parse convertSRGBToLinear float32_bits littleEndian dat = Inr g"
  shows "\<exists>view. decompressLZF (compressed_payload h dat) (decompressed_size h dat) = Inr view
     \<and> (\<forall>i < loop_count (points h).
          (\<forall>xs. position_attribute g = Some xs \<longrightarrow>
              getFloat32 view (column_address h i (js ''x'')) littleEndian = Inr (xs ! (3 * i))
            \<and> getFloat32 view (column_address h i (js ''y'')) littleEndian = Inr (xs ! (3 * i + 1))
            \<and> getFloat32 view (column_address h i (js ''z'')) littleEndian = Inr (xs ! (3 * i + 2)))
        \<and> (\<forall>xs. normal_attribute g = Some xs \<longrightarrow>
              getFloat32 view (column_address h i (js ''normal_x'')) littleEndian
                = Inr (xs ! (3 * i))
            \<and> getFloat32 view (column_address h i (js ''normal_y'')) littleEndian
                = Inr (xs ! (3 * i + 1))
            \<and> getFloat32 view (column_address h i (js ''normal_z'')) littleEndian
                = Inr (xs ! (3 * i + 2)))
        \<and> (\<forall>xs. intensity_attribute g = Some xs \<longrightarrow>
              getFloat32 view (column_address h i (js ''intensity'')) littleEndian = Inr (xs ! i))
        \<and> (\<forall>xs. label_attribute g = Some xs \<longrightarrow>
              getInt32 view (column_address h i (js ''label'')) littleEndian = Inr (xs ! i))
        \<and> (\<forall>xs. color_attribute g = Some xs \<longrightarrow>
              (\<exists>r gr b.
                  getUint8 view (js_add (column_address h i (js ''rgb'')) (Num 2)) = Inr r
                \<and> getUint8 view (js_add (column_address h i (js ''rgb'')) (Num 1)) = Inr gr
                \<and> getUint8 view (js_add (column_address h i (js ''rgb'')) (Num 0)) = Inr b
                \<and> [xs ! (3 * i), xs ! (3 * i + 1), xs ! (3 * i + 2)]
                    = set_color convertSRGBToLinear r gr b)))"
proof -
  let ?n = "loop_count (points h)"
  from parse_compressed_chunks[OF assms] obtain view cs where
    dz: "decompressLZF (compressed_payload h dat) (decompressed_size h dat) = Inr view"
    and len: "length cs = ?n"
    and ch: "\<forall>j < ?n. point_chunk convertSRGBToLinear littleEndian (offset h) view
                        (compressed_address h j) (cs ! j)"
    and g: "g = build_geometry (foldl arrays_append no_arrays cs)"
    by blast
  let ?a = "foldl arrays_append no_arrays cs"
  have arr: "position ?a = concat (map position cs)" "normal ?a = concat (map normal cs)"
    "color ?a = concat (map color cs)" "intensity ?a = concat (map intensity cs)"
    "label ?a = concat (map label cs)"
    by (simp_all add: foldl_arrays_append no_arrays_def)
  have att: "position_attribute g = attribute (position ?a)"
    "normal_attribute g = attribute (normal ?a)" "color_attribute g = attribute (color ?a)"
    "intensity_attribute g = attribute (intensity ?a)" "label_attribute g = attribute (label ?a)"
    unfolding g by (simp_all add: build_geometry_def)
  have A: "\<And>j f p. compressed_address h j f = Inr p \<Longrightarrow> p = column_address h j f"
    by (rule compressed_address_InrD)
  have c1: "\<forall>j < ?n. (if offset h (js ''x'') \<noteq> None then
        \<exists>px py pz vx vy vz.
          compressed_address h j (js ''x'') = Inr px \<and> compressed_address h j (js ''y'') = Inr py
          \<and> compressed_address h j (js ''z'') = Inr pz
          \<and> getFloat32 view px littleEndian = Inr vx \<and> getFloat32 view py littleEndian = Inr vy
          \<and> getFloat32 view pz littleEndian = Inr vz \<and> position (cs ! j) = [vx, vy, vz]
      else position (cs ! j) = [])"
    using ch unfolding point_chunk_def by blast
  have c2: "\<forall>j < ?n. (if offset h (js ''normal_x'') \<noteq> None then
        \<exists>px py pz vx vy vz.
          compressed_address h j (js ''normal_x'') = Inr px
          \<and> compressed_address h j (js ''normal_y'') = Inr py
          \<and> compressed_address h j (js ''normal_z'') = Inr pz
          \<and> getFloat32 view px littleEndian = Inr vx \<and> getFloat32 view py littleEndian = Inr vy
          \<and> getFloat32 view pz littleEndian = Inr vz \<and> normal (cs ! j) = [vx, vy, vz]
      else normal (cs ! j) = [])"
    using ch unfolding point_chunk_def by blast
  have c3: "\<forall>j < ?n. (if offset h (js ''intensity'') \<noteq> None then
        \<exists>p v. compressed_address h j (js ''intensity'') = Inr p
          \<and> getFloat32 view p littleEndian = Inr v \<and> intensity (cs ! j) = [v]
      else intensity (cs ! j) = [])"
    using ch unfolding point_chunk_def by blast
  have c4: "\<forall>j < ?n. (if offset h (js ''label'') \<noteq> None then
        \<exists>p v. compressed_address h j (js ''label'') = Inr p
          \<and> getInt32 view p littleEndian = Inr v \<and> label (cs ! j) = [v]
      else label (cs ! j) = [])"
    using ch unfolding point_chunk_def by blast
  have c5: "\<forall>j < ?n. (if offset h (js ''rgb'') \<noteq> None then
        \<exists>p r g b.
          compressed_address h j (js ''rgb'') = Inr p \<and> getUint8 view (js_add p (Num 2)) = Inr r
          \<and> getUint8 view (js_add p (Num 1)) = Inr g \<and> getUint8 view (js_add p (Num 0)) = Inr b
          \<and> color (cs ! j) = set_color convertSRGBToLinear r g b
      else color (cs ! j) = [])"
    using ch unfolding point_chunk_def by blast
  show ?thesis
  proof (intro exI[of _ view] conjI allI impI)
    show "decompressLZF (compressed_payload h dat) (decompressed_size h dat) = Inr view"
      by (rule dz)
  next
    fix i xs assume i: "i < ?n" and "position_attribute g = Some xs"
    then have xs: "xs = concat (map position cs)" "xs \<noteq> []"
      unfolding att attribute_Some_iff arr by simp_all
    note r = chunk_group3[where G = "\<lambda>p. getFloat32 view p littleEndian"
          and addr = "compressed_address h" and A = "column_address h" and sel = position
          and fa = "js ''x''" and fb = "js ''y''" and fc = "js ''z''"
          and P = "offset h (js ''x'') \<noteq> None", OF c1 len xs i A]
    show "getFloat32 view (column_address h i (js ''x'')) littleEndian = Inr (xs ! (3 * i))"
      "getFloat32 view (column_address h i (js ''y'')) littleEndian = Inr (xs ! (3 * i + 1))"
      "getFloat32 view (column_address h i (js ''z'')) littleEndian = Inr (xs ! (3 * i + 2))"
      using r by blast+
  next
    fix i xs assume i: "i < ?n" and "normal_attribute g = Some xs"
    then have xs: "xs = concat (map normal cs)" "xs \<noteq> []"
      unfolding att attribute_Some_iff arr by simp_all
    note r = chunk_group3[where G = "\<lambda>p. getFloat32 view p littleEndian"
          and addr = "compressed_address h" and A = "column_address h" and sel = normal
          and fa = "js ''normal_x''" and fb = "js ''normal_y''" and fc = "js ''normal_z''"
          and P = "offset h (js ''normal_x'') \<noteq> None", OF c2 len xs i A]
    show "getFloat32 view (column_address h i (js ''normal_x'')) littleEndian
            = Inr (xs ! (3 * i))"
      "getFloat32 view (column_address h i (js ''normal_y'')) littleEndian
            = Inr (xs ! (3 * i + 1))"
      "getFloat32 view (column_address h i (js ''normal_z'')) littleEndian
            = Inr (xs ! (3 * i + 2))"
      using r by blast+
  next
    fix i xs assume i: "i < ?n" and "intensity_attribute g = Some xs"
    then have xs: "xs = concat (map intensity cs)" "xs \<noteq> []"
      unfolding att attribute_Some_iff arr by simp_all
    show "getFloat32 view (column_address h i (js ''intensity'')) littleEndian = Inr (xs ! i)"
      by (rule chunk_group1[where G = "\<lambda>p. getFloat32 view p littleEndian"
            and addr = "compressed_address h" and A = "column_address h" and sel = intensity
            and fa = "js ''intensity''" and P = "offset h (js ''intensity'') \<noteq> None",
            OF c3 len xs i A])
  next
    fix i xs assume i: "i < ?n" and "label_attribute g = Some xs"
    then have xs: "xs = concat (map label cs)" "xs \<noteq> []"
      unfolding att attribute_Some_iff arr by simp_all
    show "getInt32 view (column_address h i (js ''label'')) littleEndian = Inr (xs ! i)"
      by (rule chunk_group1[where G = "\<lambda>p. getInt32 view p littleEndian"
            and addr = "compressed_address h" and A = "column_address h" and sel = label
            and fa = "js ''label''" and P = "offset h (js ''label'') \<noteq> None",
            OF c4 len xs i A])
  next
    fix i xs assume i: "i < ?n" and "color_attribute g = Some xs"
    then have xs: "xs = concat (map color cs)" "xs \<noteq> []"
      unfolding att attribute_Some_iff arr by simp_all
    show "\<exists>r gr b.
              getUint8 view (js_add (column_address h i (js ''rgb'')) (Num 2)) = Inr r
            \<and> getUint8 view (js_add (column_address h i (js ''rgb'')) (Num 1)) = Inr gr
            \<and> getUint8 view (js_add (column_address h i (js ''rgb'')) (Num 0)) = Inr b
            \<and> [xs ! (3 * i), xs ! (3 * i + 1), xs ! (3 * i + 2)]
                = set_color convertSRGBToLinear r gr b"
      by (rule chunk_color[where G = "getUint8 view"
            and addr = "compressed_address h" and A = "column_address h" and sel = color
            and fa = "js ''rgb''" and P = "offset h (js ''rgb'') \<noteq> None",
            OF c5 len xs i A])
  qed
qed

text \<open>
  Claim C4. When \<open>parse\<close> returns on a \<open>binary_compressed\<close> input, the payload
  after the two size prefixes decompresses to a buffer \<open>view\<close>, and for every point
  \<open>i\<close> below the point count each value of an attribute present in the result is the
  one read from \<open>view\<close> at the column address of its field: the \<open>i\<close>-th triple of
  positions at the addresses of \<open>x\<close>, \<open>y\<close>, \<open>z\<close>, and so on for normals,
  intensity, label and the three bytes of \<open>rgb\<close>. For integer point count, field
  offset and size the column address is
  \<open>pointCount * fieldOffset[f] + size[f] * i\<close>.
\<close>

theorem compressed_column_major:
  assumes "parseHeader (TextDecoder_decode dat) = Inr h"
    and "data h = js ''binary_compressed''"
    and "parse convertSRGBToLinear float32_bits littleEndian dat = Inr g"
  shows "(\<exists>view. decompressLZF (compressed_payload h dat) (decompressed_size h dat) = Inr view
     \<and> (\<forall>i < loop_count (points h).
          (\<forall>xs. position_attribute g = Some xs \<longrightarrow>
              getFloat32 view (column_address h i (js ''x'')) littleEndian = Inr (xs ! (3 * i))
            \<and> getFloat32 view (column_address h i (js ''y'')) littleEndian = Inr (xs ! (3 * i + 1))
            \<and> getFloat32 view (column_address h i (js ''z'')) littleEndian = Inr (xs ! (3 * i + 2)))
        \<and> (\<forall>xs. normal_attribute g = Some xs \<longrightarrow>
              getFloat32 view (column_address h i (js ''normal_x'')) littleEndian
                = Inr (xs ! (3 * i))
            \<and> getFloat32 view (column_address h i (js ''normal_y'')) littleEndian
                = Inr (xs ! (3 * i + 1))
            \<and> getFloat32 view (column_address h i (js ''normal_z'')) littleEndian
                = Inr (xs ! (3 * i + 2)))
        \<and> (\<forall>xs. intensity_attribute g = Some xs \<longrightarrow>
              getFloat32 view (column_address h i (js ''intensity'')) littleEndian = Inr (xs ! i))
        \<and> (\<forall>xs. label_attribute g = Some xs \<longrightarrow>
              getInt32 view (column_address h i (js ''label'')) littleEndian = Inr (xs ! i))
        \<and> (\<forall>xs. color_attribute g = Some xs \<longrightarrow>
              (\<exists>r gr b.
                  getUint8 view (js_add (column_address h i (js ''rgb'')) (Num 2)) = Inr r
                \<and> getUint8 view (js_add (column_address h i (js ''rgb'')) (Num 1)) = Inr gr
                \<and> getUint8 view (js_add (column_address h i (js ''rgb'')) (Num 0)) = Inr b
                \<and> [xs ! (3 * i), xs ! (3 * i + 1), xs ! (3 * i + 2)]
                    = set_color convertSRGBToLinear r gr b))))
   \<and> (\<forall>i f n fieldOffset s.
          points h = Num n \<longrightarrow> offset h f = Some (Num fieldOffset) \<longrightarrow>
          arr_get_int (sizes h) (indexOf (fields' h) f) = Some (Num s) \<longrightarrow>
          column_address h i f = Num (n * fieldOffset + s * int i))"
proof (rule conjI)
  show "\<exists>view. decompressLZF (compressed_payload h dat) (decompressed_size h dat) = Inr view
     \<and> (\<forall>i < loop_count (points h).
          (\<forall>xs. position_attribute g = Some xs \<longrightarrow>
              getFloat32 view (column_address h i (js ''x'')) littleEndian = Inr (xs ! (3 * i))
            \<and> getFloat32 view (column_address h i (js ''y'')) littleEndian = Inr (xs ! (3 * i + 1))
            \<and> getFloat32 view (column_address h i (js ''z'')) littleEndian = Inr (xs ! (3 * i + 2)))
        \<and> (\<forall>xs. normal_attribute g = Some xs \<longrightarrow>
              getFloat32 view (column_address h i (js ''normal_x'')) littleEndian
                = Inr (xs ! (3 * i))
            \<and> getFloat32 view (column_address h i (js ''normal_y'')) littleEndian
                = Inr (xs ! (3 * i + 1))
            \<and> getFloat32 view (column_address h i (js ''normal_z'')) littleEndian
                = Inr (xs ! (3 * i + 2)))
        \<and> (\<forall>xs. intensity_attribute g = Some xs \<longrightarrow>
              getFloat32 view (column_address h i (js ''intensity'')) littleEndian = Inr (xs ! i))
        \<and> (\<forall>xs. label_attribute g = Some xs \<longrightarrow>
              getInt32 view (column_address h i (js ''label'')) littleEndian = Inr (xs ! i))
        \<and> (\<forall>xs. color_attribute g = Some xs \<longrightarrow>
              (\<exists>r gr b.
                  getUint8 view (js_add (column_address h i (js ''rgb'')) (Num 2)) = Inr r
                \<and> getUint8 view (js_add (column_address h i (js ''rgb'')) (Num 1)) = Inr gr
                \<and> getUint8 view (js_add (column_address h i (js ''rgb'')) (Num 0)) = Inr b
                \<and> [xs ! (3 * i), xs ! (3 * i + 1), xs ! (3 * i + 2)]
                    = set_color convertSRGBToLinear r gr b)))"
    by (rule compressed_reads[OF assms])
  show "\<forall>i f n fieldOffset s.
          points h = Num n \<longrightarrow> offset h f = Some (Num fieldOffset) \<longrightarrow>
          arr_get_int (sizes h) (indexOf (fields' h) f) = Some (Num s) \<longrightarrow>
          column_address h i f = Num (n * fieldOffset + s * int i)"
    by (simp add: column_address_Num)
qed

subsection \<open>Examples\<close>

text \<open>
  A \<open>binary_compressed\<close> cloud of two points with the fields \<open>x\<close> and \<open>y\<close>: the
  payload is one literal run of 16 bytes, the floats 1, 2 (the \<open>x\<close> column) and 3, 4
  (the \<open>y\<close> column).
\<close>

definition compressed_example :: "byte list" where
  "compressed_example =
     ascii_bytes ''FIELDS x y\<newline>SIZE 4 4\<newline>TYPE F F\<newline>COUNT 1 1\<newline>WIDTH 2\<newline>HEIGHT 1\<newline>POINTS 2\<newline>DATA binary_compressed\<newline>''
     @ [17, 0, 0, 0, 16, 0, 0, 0,
        15, 0, 0, 0x80, 0x3F, 0, 0, 0, 0x40, 0, 0, 0x40, 0x40, 0, 0, 0x80, 0x40]"

lemma compressed_example_header:
  "\<exists>h. parseHeader (TextDecoder_decode compressed_example) = Inr h
     \<and> data h = js ''binary_compressed'' \<and> headerLen h = 88 \<and> points h = Num 2
     \<and> fields' h = [js ''x'', js ''y''] \<and> size' h = Some [Num 4, Num 4]
     \<and> offset h (js ''x'') = Some (Num 0) \<and> offset h (js ''y'') = Some (Num 4)
     \<and> offset h (js ''z'') = None \<and> offset h (js ''rgb'') = None
     \<and> offset h (js ''normal_x'') = None \<and> offset h (js ''intensity'') = None
     \<and> offset h (js ''label'') = None"
proof -
  have "case parseHeader (TextDecoder_decode compressed_example) of
          Inl e \<Rightarrow> False
        | Inr h \<Rightarrow> data h = js ''binary_compressed'' \<and> headerLen h = 88 \<and> points h = Num 2
     \<and> fields' h = [js ''x'', js ''y''] \<and> size' h = Some [Num 4, Num 4]
     \<and> offset h (js ''x'') = Some (Num 0) \<and> offset h (js ''y'') = Some (Num 4)
     \<and> offset h (js ''z'') = None \<and> offset h (js ''rgb'') = None
     \<and> offset h (js ''normal_x'') = None \<and> offset h (js ''intensity'') = None
     \<and> offset h (js ''label'') = None"
    by (simp add: compressed_example_def TextDecoder_decode_def ascii_bytes_def utf8_lead_def
          utf16_units_def parseHeader_def Let_def eval_defs)
  then show ?thesis by (auto split: sum.splits)
qed

lemma compressed_example_view:
  "decompressLZF [15, 0, 0, 0x80, 0x3F, 0, 0, 0, 0x40, 0, 0, 0x40, 0x40, 0, 0, 0x80, 0x40] 16
     = Inr [0, 0, 0x80, 0x3F, 0, 0, 0, 0x40, 0, 0, 0x40, 0x40, 0, 0, 0x80, 0x40]"
  by code_simp

lemma float32_examples:
  "float32_value 0x3F800000 = FNum 1" "float32_value 0x40000000 = FNum 2"
  "float32_value 0x40400000 = FNum 3" "float32_value 0x40800000 = FNum 4"
  by (simp_all add: float32_value_def Let_def bit_iff_odd drop_bit_eq_div)

lemma word32_examples:
  "word32_of_bytes True [17, 0, 0, 0] = 17" "word32_of_bytes True [16, 0, 0, 0] = 16"
  "word32_of_bytes True [0, 0, 0x80, 0x3F] = 0x3F800000"
  "word32_of_bytes True [0, 0, 0, 0x40] = 0x40000000"
  "word32_of_bytes True [0, 0, 0x40, 0x40] = 0x40400000"
  "word32_of_bytes True [0, 0, 0x80, 0x40] = 0x40800000"
  by (simp_all add: word32_of_bytes_def)

lemma compressed_example_reads:
  "getFloat32 [0, 0, 0x80, 0x3F, 0, 0, 0, 0x40, 0, 0, 0x40, 0x40, 0, 0, 0x80, 0x40] (Num 0) True
     = Inr (FNum 1)"
  "getFloat32 [0, 0, 0x80, 0x3F, 0, 0, 0, 0x40, 0, 0, 0x40, 0x40, 0, 0, 0x80, 0x40] (Num 4) True
     = Inr (FNum 2)"
  "getFloat32 [0, 0, 0x80, 0x3F, 0, 0, 0, 0x40, 0, 0, 0x40, 0x40, 0, 0, 0x80, 0x40] (Num 8) True
     = Inr (FNum 3)"
  "getFloat32 [0, 0, 0x80, 0x3F, 0, 0, 0, 0x40, 0, 0, 0x40, 0x40, 0, 0, 0x80, 0x40] (Num 12) True
     = Inr (FNum 4)"
  "getFloat32 [0, 0, 0x80, 0x3F, 0, 0, 0, 0x40, 0, 0, 0x40, 0x40, 0, 0, 0x80, 0x40] NaN True
     = Inr (FNum 1)"
  by (simp_all add: getFloat32_def view_bytes_def to_index_def word32_examples float32_examples)

lemma compressed_example_tail:
  "drop 88 compressed_example = [17, 0, 0, 0, 16, 0, 0, 0,
        15, 0, 0, 0x80, 0x3F, 0, 0, 0, 0x40, 0, 0, 0x40, 0x40, 0, 0, 0x80, 0x40]"
  "drop 92 compressed_example = [16, 0, 0, 0,
        15, 0, 0, 0x80, 0x3F, 0, 0, 0, 0x40, 0, 0, 0x40, 0x40, 0, 0, 0x80, 0x40]"
  "drop 96 compressed_example
     = [15, 0, 0, 0x80, 0x3F, 0, 0, 0, 0x40, 0, 0, 0x40, 0x40, 0, 0, 0x80, 0x40]"
  "length compressed_example = 113"
  by (simp_all add: compressed_example_def ascii_bytes_def)

lemma compressed_example_parse:
  assumes "parseHeader (TextDecoder_decode compressed_example) = Inr h"
    and "data h = js ''binary_compressed''" and "headerLen h = 88" and "points h = Num 2"
    and "fields' h = [js ''x'', js ''y'']" and "size' h = Some [Num 4, Num 4]"
    and "offset h (js ''x'') = Some (Num 0)" and "offset h (js ''y'') = Some (Num 4)"
    and "offset h (js ''z'') = None" and "offset h (js ''rgb'') = None"
    and "offset h (js ''normal_x'') = None" and "offset h (js ''intensity'') = None"
    and "offset h (js ''label'') = None"
  shows "parse id float_to_int32 True compressed_example
       = Inr \<lparr>position_attribute = Some [FNum 1, FNum 3, FNum 1, FNum 2, FNum 4, FNum 1],
              normal_attribute = None, color_attribute = None, intensity_attribute = None,
              label_attribute = None\<rparr>"
    and "compressed_payload h compressed_example
       = [15, 0, 0, 0x80, 0x3F, 0, 0, 0, 0x40, 0, 0, 0x40, 0x40, 0, 0, 0x80, 0x40]"
    and "decompressed_size h compressed_example = 16"
proof -
  let ?view = "[0, 0, 0x80, 0x3F, 0, 0, 0, 0x40, 0, 0, 0x40, 0x40, 0, 0, 0x80, 0x40] :: byte list"
  have d: "data h \<noteq> js ''ascii''" "data h \<noteq> js ''binary''"
    unfolding assms(2) by (simp_all add: js_def)
  show "compressed_payload h compressed_example
       = [15, 0, 0, 0x80, 0x3F, 0, 0, 0, 0x40, 0, 0, 0x40, 0x40, 0, 0, 0x80, 0x40]"
    and "decompressed_size h compressed_example = 16"
    by (simp_all add: compressed_payload_def compressed_size_def decompressed_size_def assms(3)
          compressed_example_tail word32_examples)
  have sl: "js_slice 88 (Some 96) compressed_example = [17, 0, 0, 0, 16, 0, 0, 0]"
    using js_slice_drop[of 88 compressed_example] compressed_example_tail
    by (simp add: js_slice_def min_def)
  have ix: "indexOf (fields' h) (js ''x'') = 0" "indexOf (fields' h) (js ''y'') = 1"
    "indexOf (fields' h) (js ''z'') = -1"
    unfolding assms(5) by (simp_all add: indexOf_def js_def)
  have ca: "compressed_address h 0 (js ''x'') = Inr (Num 0)"
    "compressed_address h (Suc 0) (js ''x'') = Inr (Num 4)"
    "compressed_address h 0 (js ''y'') = Inr (Num 8)"
    "compressed_address h (Suc 0) (js ''y'') = Inr (Num 12)"
    "compressed_address h 0 (js ''z'') = Inr NaN"
    "compressed_address h (Suc 0) (js ''z'') = Inr NaN"
    by (simp_all add: compressed_address_def assms(4,6,7,8,9) ix undefined_to_number_def
          arr_get_int_def arr_get_def)
  have rp: "\<And>a. read_point id True (offset h) ?view (compressed_address h 0) a
              = Inr (a\<lparr>position := position a @ [FNum 1, FNum 3, FNum 1]\<rparr>)"
    "\<And>a. read_point id True (offset h) ?view (compressed_address h (Suc 0)) a
              = Inr (a\<lparr>position := position a @ [FNum 2, FNum 4, FNum 1]\<rparr>)"
    by (simp_all add: read_point_def read_position_def read_rgb_def read_normal_def
          read_intensity_def read_label_def assms(7,9,10,11,12,13) err_bind_def read_group_def
          ca compressed_example_reads)
  have cp: "compressed_points id True h ?view (Suc (Suc 0)) 0 no_arrays
      = Inr \<lparr>position = [FNum 1, FNum 3, FNum 1, FNum 2, FNum 4, FNum 1], normal = [],
              color = [], intensity = [], label = []\<rparr>"
    by (simp add: rp no_arrays_def)
  have lc: "loop_count (points h) = Suc (Suc 0)" by (simp add: assms(4) loop_count_def)
  have pb: "parse_binary_compressed id True h compressed_example no_arrays
      = Inr \<lparr>position = [FNum 1, FNum 3, FNum 1, FNum 2, FNum 4, FNum 1], normal = [],
              color = [], intensity = [], label = []\<rparr>"
    unfolding parse_binary_compressed_def assms(3) lc
    by (simp add: sl word32_examples compressed_example_tail compressed_example_view cp
          del: compressed_points.simps)
  show "parse id float_to_int32 True compressed_example
       = Inr \<lparr>position_attribute = Some [FNum 1, FNum 3, FNum 1, FNum 2, FNum 4, FNum 1],
              normal_attribute = None, color_attribute = None, intensity_attribute = None,
              label_attribute = None\<rparr>"
    unfolding parse_def Let_def assms(1) sum.case assms(2)
    by (simp add: js_def pb build_geometry_def attribute_def)
qed

text \<open>
  Claim C4, on the example: \<open>x[0]\<close> and \<open>x[1]\<close> are read at the addresses 0 and 4,
  the first block of the buffer, \<open>y[0]\<close> and \<open>y[1]\<close> at 8 and 12, the second. The
  field \<open>z\<close> is not declared: its address is \<open>NaN\<close>, which the DataView takes as 0.
\<close>

theorem compressed_column_major_witness:
  "\<exists>h view.
      parseHeader (TextDecoder_decode compressed_example) = Inr h
    \<and> data h = js ''binary_compressed'' \<and> points h = Num 2
    \<and> parse id float_to_int32 True compressed_example
        = Inr \<lparr>position_attribute = Some [FNum 1, FNum 3, FNum 1, FNum 2, FNum 4, FNum 1],
               normal_attribute = None, color_attribute = None, intensity_attribute = None,
               label_attribute = None\<rparr>
    \<and> decompressLZF (compressed_payload h compressed_example)
          (decompressed_size h compressed_example) = Inr view
    \<and> view = [0, 0, 0x80, 0x3F, 0, 0, 0, 0x40, 0, 0, 0x40, 0x40, 0, 0, 0x80, 0x40]
    \<and> column_address h 0 (js ''x'') = Num 0 \<and> getFloat32 view (Num 0) True = Inr (FNum 1)
    \<and> column_address h 1 (js ''x'') = Num 4 \<and> getFloat32 view (Num 4) True = Inr (FNum 2)
    \<and> column_address h 0 (js ''y'') = Num 8 \<and> getFloat32 view (Num 8) True = Inr (FNum 3)
    \<and> column_address h 1 (js ''y'') = Num 12 \<and> getFloat32 view (Num 12) True = Inr (FNum 4)"
proof -
  from compressed_example_header obtain h where
    h: "parseHeader (TextDecoder_decode compressed_example) = Inr h"
      "data h = js ''binary_compressed''" "headerLen h = 88" "points h = Num 2"
      "fields' h = [js ''x'', js ''y'']" "size' h = Some [Num 4, Num 4]"
      "offset h (js ''x'') = Some (Num 0)" "offset h (js ''y'') = Some (Num 4)"
      "offset h (js ''z'') = None" "offset h (js ''rgb'') = None"
      "offset h (js ''normal_x'') = None" "offset h (js ''intensity'') = None"
      "offset h (js ''label'') = None"
    by blast
  define g where "g = \<lparr>position_attribute = Some [FNum 1, FNum 3, FNum 1, FNum 2, FNum 4, FNum 1],
               normal_attribute = None, color_attribute = None, intensity_attribute = None,
               label_attribute = None\<rparr>"
  note p = compressed_example_parse[OF h, folded g_def]
  have pg: "position_attribute g = Some [FNum 1, FNum 3, FNum 1, FNum 2, FNum 4, FNum 1]"
    by (simp add: g_def)
  note t = compressed_column_major[OF h(1) h(2) p(1)]
  from t obtain view where
    dz: "decompressLZF (compressed_payload h compressed_example)
           (decompressed_size h compressed_example) = Inr view"
    and rd: "\<forall>i < loop_count (points h). \<forall>xs. position_attribute g = Some xs \<longrightarrow>
              getFloat32 view (column_address h i (js ''x'')) True = Inr (xs ! (3 * i))
            \<and> getFloat32 view (column_address h i (js ''y'')) True = Inr (xs ! (3 * i + 1))
            \<and> getFloat32 view (column_address h i (js ''z'')) True = Inr (xs ! (3 * i + 2))"
    by blast
  from t have af: "\<forall>i f n fieldOffset s.
          points h = Num n \<longrightarrow> offset h f = Some (Num fieldOffset) \<longrightarrow>
          arr_get_int (sizes h) (indexOf (fields' h) f) = Some (Num s) \<longrightarrow>
          column_address h i f = Num (n * fieldOffset + s * int i)"
    by blast
  have v: "view = [0, 0, 0x80, 0x3F, 0, 0, 0, 0x40, 0, 0, 0x40, 0x40, 0, 0, 0x80, 0x40]"
    using dz unfolding p(2) p(3) compressed_example_view by simp
  have i: "0 < loop_count (points h)" "1 < loop_count (points h)"
    by (simp_all add: h(4) loop_count_def)
  have sz: "arr_get_int (sizes h) (indexOf (fields' h) (js ''x'')) = Some (Num 4)"
    "arr_get_int (sizes h) (indexOf (fields' h) (js ''y'')) = Some (Num 4)"
    by (simp_all add: sizes_def h(5) h(6) indexOf_def arr_get_int_def arr_get_def js_def)
  have a: "column_address h 0 (js ''x'') = Num 0" "column_address h 1 (js ''x'') = Num 4"
    "column_address h 0 (js ''y'') = Num 8" "column_address h 1 (js ''y'') = Num 12"
    using af[rule_format, OF h(4) h(7) sz(1), of 0] af[rule_format, OF h(4) h(7) sz(1), of 1]
      af[rule_format, OF h(4) h(8) sz(2), of 0] af[rule_format, OF h(4) h(8) sz(2), of 1]
    by simp_all
  have r: "getFloat32 view (Num 0) True = Inr (FNum 1)"
    "getFloat32 view (Num 4) True = Inr (FNum 2)"
    "getFloat32 view (Num 8) True = Inr (FNum 3)"
    "getFloat32 view (Num 12) True = Inr (FNum 4)"
    using rd[rule_format, OF i(1) pg] rd[rule_format, OF i(2) pg] unfolding a by simp_all
  show ?thesis
    using h(1) h(2) h(4) p(1)[unfolded g_def] dz v a r by blast
qed

text \<open>
  A \<open>binary\<close> cloud of one point with the fields \<open>x\<close>, \<open>y\<close>, \<open>z\<close>.
\<close>

definition binary_example :: "byte list" where
  "binary_example =
     ascii_bytes ''FIELDS x y z\<newline>SIZE 4 4 4\<newline>TYPE F F F\<newline>COUNT 1 1 1\<newline>WIDTH 1\<newline>HEIGHT 1\<newline>POINTS 1\<newline>DATA binary\<newline>''
     @ [0, 0, 0x80, 0x3F, 0, 0, 0, 0x40, 0, 0, 0x40, 0x40]"

lemma binary_example_header:
  "\<exists>h. parseHeader (TextDecoder_decode binary_example) = Inr h
     \<and> data h = js ''binary'' \<and> headerLen h = 85 \<and> points h = Num 1
     \<and> fields' h = [js ''x'', js ''y'', js ''z'']
     \<and> offset h (js ''x'') = Some (Num 0) \<and> offset h (js ''y'') = Some (Num 4)
     \<and> offset h (js ''z'') = Some (Num 8) \<and> offset h (js ''rgb'') = None
     \<and> offset h (js ''normal_x'') = None \<and> offset h (js ''intensity'') = None
     \<and> offset h (js ''label'') = None"
proof -
  have "case parseHeader (TextDecoder_decode binary_example) of
          Inl e \<Rightarrow> False
        | Inr h \<Rightarrow> data h = js ''binary'' \<and> headerLen h = 85 \<and> points h = Num 1
     \<and> fields' h = [js ''x'', js ''y'', js ''z'']
     \<and> offset h (js ''x'') = Some (Num 0) \<and> offset h (js ''y'') = Some (Num 4)
     \<and> offset h (js ''z'') = Some (Num 8) \<and> offset h (js ''rgb'') = None
     \<and> offset h (js ''normal_x'') = None \<and> offset h (js ''intensity'') = None
     \<and> offset h (js ''label'') = None"
    by (simp add: binary_example_def TextDecoder_decode_def ascii_bytes_def utf8_lead_def
          utf16_units_def parseHeader_def Let_def eval_defs)
  then show ?thesis by (auto split: sum.splits)
qed

lemma binary_example_reads:
  "getFloat32 [0, 0, 0x80, 0x3F, 0, 0, 0, 0x40, 0, 0, 0x40, 0x40] (Num 0) True = Inr (FNum 1)"
  "getFloat32 [0, 0, 0x80, 0x3F, 0, 0, 0, 0x40, 0, 0, 0x40, 0x40] (Num 4) True = Inr (FNum 2)"
  "getFloat32 [0, 0, 0x80, 0x3F, 0, 0, 0, 0x40, 0, 0, 0x40, 0x40] (Num 8) True = Inr (FNum 3)"
  by (simp_all add: getFloat32_def view_bytes_def to_index_def word32_examples float32_examples)

lemma binary_example_parse:
  assumes "parseHeader (TextDecoder_decode binary_example) = Inr h"
    and "data h = js ''binary''" and "headerLen h = 85" and "points h = Num 1"
    and "fields' h = [js ''x'', js ''y'', js ''z'']"
    and "offset h (js ''x'') = Some (Num 0)" and "offset h (js ''y'') = Some (Num 4)"
    and "offset h (js ''z'') = Some (Num 8)" and "offset h (js ''rgb'') = None"
    and "offset h (js ''normal_x'') = None" and "offset h (js ''intensity'') = None"
    and "offset h (js ''label'') = None"
  shows "parse id float_to_int32 True binary_example
       = Inr \<lparr>position_attribute = Some [FNum 1, FNum 2, FNum 3],
              normal_attribute = None, color_attribute = None, intensity_attribute = None,
              label_attribute = None\<rparr>"
proof -
  let ?view = "[0, 0, 0x80, 0x3F, 0, 0, 0, 0x40, 0, 0, 0x40, 0x40] :: byte list"
  have dr: "drop 85 binary_example = ?view" "length binary_example = 97"
    by (simp_all add: binary_example_def ascii_bytes_def)
  have ba: "binary_address h (Num 0) (js ''x'') = Inr (Num 0)"
    "binary_address h (Num 0) (js ''y'') = Inr (Num 4)"
    "binary_address h (Num 0) (js ''z'') = Inr (Num 8)"
    by (simp_all add: binary_address_def assms(6,7,8) undefined_to_number_def)
  have rp: "\<And>a. read_point id True (offset h) ?view (binary_address h (Num 0)) a
              = Inr (a\<lparr>position := position a @ [FNum 1, FNum 2, FNum 3]\<rparr>)"
    by (simp add: read_point_def read_position_def read_rgb_def read_normal_def
          read_intensity_def read_label_def assms(6,9,10,11,12) err_bind_def read_group_def
          ba binary_example_reads)
  have bp: "binary_points id True h ?view (Suc 0) (Num 0) no_arrays
      = Inr \<lparr>position = [FNum 1, FNum 2, FNum 3], normal = [],
              color = [], intensity = [], label = []\<rparr>"
    by (simp add: rp no_arrays_def)
  have pb: "parse_binary id True h binary_example no_arrays
      = Inr \<lparr>position = [FNum 1, FNum 2, FNum 3], normal = [],
              color = [], intensity = [], label = []\<rparr>"
    unfolding parse_binary_def assms(3) assms(4)
    by (simp add: loop_count_def dr bp del: binary_points.simps)
  show ?thesis
    unfolding parse_def Let_def assms(1) sum.case assms(2)
    by (simp add: js_def pb build_geometry_def attribute_def)
qed

text \<open>
  Claim C8, as amended, on the example: one point is decoded, the header's count is 1,
  and the positions have length 3.
\<close>

theorem output_arrays_witness:
  "\<exists>h. parseHeader (TextDecoder_decode binary_example) = Inr h
     \<and> data h = js ''binary'' \<and> points h = Num 1
     \<and> fields' h = [js ''x'', js ''y'', js ''z'']
     \<and> parse id float_to_int32 True binary_example
         = Inr \<lparr>position_attribute = Some [FNum 1, FNum 2, FNum 3],
                normal_attribute = None, color_attribute = None, intensity_attribute = None,
                label_attribute = None\<rparr>
     \<and> decoded_points h (TextDecoder_decode binary_example) = 1
     \<and> length [FNum 1, FNum 2, FNum 3]
         = 3 * decoded_points h (TextDecoder_decode binary_example)"
proof -
  from binary_example_header obtain h where
    h: "parseHeader (TextDecoder_decode binary_example) = Inr h"
      "data h = js ''binary''" "headerLen h = 85" "points h = Num 1"
      "fields' h = [js ''x'', js ''y'', js ''z'']"
      "offset h (js ''x'') = Some (Num 0)" "offset h (js ''y'') = Some (Num 4)"
      "offset h (js ''z'') = Some (Num 8)" "offset h (js ''rgb'') = None"
      "offset h (js ''normal_x'') = None" "offset h (js ''intensity'') = None"
      "offset h (js ''label'') = None"
    by blast
  define g where "g = \<lparr>position_attribute = Some [FNum 1, FNum 2, FNum 3],
                normal_attribute = None, color_attribute = None, intensity_attribute = None,
                label_attribute = None\<rparr>"
  note p = binary_example_parse[OF h, folded g_def]
  have pg: "position_attribute g = Some [FNum 1, FNum 2, FNum 3]" by (simp add: g_def)
  from output_arrays[OF p] obtain h' n where
    h': "parseHeader (TextDecoder_decode binary_example) = Inr h'"
    and n: "n = decoded_points h' (TextDecoder_decode binary_example)"
    and len: "\<forall>xs. position_attribute g = Some xs \<longrightarrow>
           length xs = 3 * n \<and> xs \<noteq> [] \<and> js ''x'' \<in> set (fields' h')"
    by blast
  have eq: "h' = h" using h(1) h' by simp
  have l: "length [FNum 1, FNum 2, FNum 3 :: jsfloat] = 3 * n" using len pg by blast
  then have n1: "n = 1" by simp
  show ?thesis
    using h(1) h(2) h(4) h(5) p[unfolded g_def] n[unfolded eq n1] l[unfolded n] eq
    by (intro exI[of _ h]) simp
qed

text \<open>
  Claim C8 as stated fails in two ways. The \<open>ascii\<close> loop runs over the lines of the
  body, not up to the header's count: with \<open>POINTS 1\<close> and two lines the positions
  have length 6, not 3. And with \<open>x\<close>, \<open>y\<close>, \<open>z\<close> declared and no point in the
  body, no positions are returned.
\<close>

theorem output_arrays_counterexample:
  "map_sum id points
     (parseHeader (TextDecoder_decode (ascii_bytes ''FIELDS x y z\<newline>SIZE 4 4 4\<newline>TYPE F F F\<newline>POINTS 1\<newline>DATA ascii\<newline>1 2 3\<newline>4 5 6\<newline>'')))
     = Inr (Num 1)
   \<and> map_sum id position_attribute
       (parse id float_to_int32 True
          (ascii_bytes ''FIELDS x y z\<newline>SIZE 4 4 4\<newline>TYPE F F F\<newline>POINTS 1\<newline>DATA ascii\<newline>1 2 3\<newline>4 5 6\<newline>''))
     = Inr (Some [FNum 1, FNum 2, FNum 3, FNum 4, FNum 5, FNum 6])
   \<and> map_sum id fields'
       (parseHeader (TextDecoder_decode (ascii_bytes ''FIELDS x y z\<newline>SIZE 4 4 4\<newline>TYPE F F F\<newline>POINTS 0\<newline>DATA ascii\<newline>'')))
     = Inr [js ''x'', js ''y'', js ''z'']
   \<and> map_sum id position_attribute
       (parse id float_to_int32 True
          (ascii_bytes ''FIELDS x y z\<newline>SIZE 4 4 4\<newline>TYPE F F F\<newline>POINTS 0\<newline>DATA ascii\<newline>''))
     = Inr None"
proof -
  have d1: "TextDecoder_decode
      (ascii_bytes ''FIELDS x y z\<newline>SIZE 4 4 4\<newline>TYPE F F F\<newline>POINTS 1\<newline>DATA ascii\<newline>1 2 3\<newline>4 5 6\<newline>'')
    = js ''FIELDS x y z\<newline>SIZE 4 4 4\<newline>TYPE F F F\<newline>POINTS 1\<newline>DATA ascii\<newline>1 2 3\<newline>4 5 6\<newline>''"
    by (simp add: TextDecoder_decode_def ascii_bytes_def utf8_lead_def utf16_units_def js_def)
  have d2: "TextDecoder_decode
      (ascii_bytes ''FIELDS x y z\<newline>SIZE 4 4 4\<newline>TYPE F F F\<newline>POINTS 0\<newline>DATA ascii\<newline>'')
    = js ''FIELDS x y z\<newline>SIZE 4 4 4\<newline>TYPE F F F\<newline>POINTS 0\<newline>DATA ascii\<newline>''"
    by (simp add: TextDecoder_decode_def ascii_bytes_def utf8_lead_def utf16_units_def js_def)
  have c1: "map_sum id points
     (parseHeader (js ''FIELDS x y z\<newline>SIZE 4 4 4\<newline>TYPE F F F\<newline>POINTS 1\<newline>DATA ascii\<newline>1 2 3\<newline>4 5 6\<newline>''))
     = Inr (Num 1)"
    by (simp add: parseHeader_def Let_def eval_defs)
  have c2: "map_sum id position_attribute
       (parse id float_to_int32 True
          (ascii_bytes ''FIELDS x y z\<newline>SIZE 4 4 4\<newline>TYPE F F F\<newline>POINTS 1\<newline>DATA ascii\<newline>1 2 3\<newline>4 5 6\<newline>''))
     = Inr (Some [FNum 1, FNum 2, FNum 3, FNum 4, FNum 5, FNum 6])"
    unfolding parse_def d1
    by (simp add: parseHeader_def Let_def eval_defs ascii_line_def ascii_position_def
          ascii_rgb_def ascii_normal_def ascii_intensity_def ascii_label_def line_token_def
          parseFloat_token_def no_arrays_def build_geometry_def attribute_def)
  have c3: "map_sum id fields'
       (parseHeader (js ''FIELDS x y z\<newline>SIZE 4 4 4\<newline>TYPE F F F\<newline>POINTS 0\<newline>DATA ascii\<newline>''))
     = Inr [js ''x'', js ''y'', js ''z'']"
    by (simp add: parseHeader_def Let_def eval_defs)
  have c4: "map_sum id position_attribute
       (parse id float_to_int32 True
          (ascii_bytes ''FIELDS x y z\<newline>SIZE 4 4 4\<newline>TYPE F F F\<newline>POINTS 0\<newline>DATA ascii\<newline>''))
     = Inr None"
    unfolding parse_def d2
    by (simp add: parseHeader_def Let_def eval_defs ascii_line_def ascii_position_def
          ascii_rgb_def ascii_normal_def ascii_intensity_def ascii_label_def line_token_def
          parseFloat_token_def no_arrays_def build_geometry_def attribute_def)
  show ?thesis unfolding d1 d2 using c1 c2[unfolded d1] c3 c4[unfolded d2] d1 d2 by simp
qed

end
